theory Spec2Isabelle
  imports Complex_Main "HOL-Library.Char_ord" "HOL-Library.List_Lexorder" "HOL-Library.Product_Lexorder"
    "HOL-Library.Multiset"
begin

section \<open>Strings\<close>

text \<open>
  Python strings are modelled as \<^typ>\<open>string\<close>, a list of 8-bit characters read as the code
  points 0..255.  \<open>is_space\<close> is the set of those code points that \<open>str.strip\<close> removes.
\<close>

definition is_space :: "char \<Rightarrow> bool" where
  "is_space c = (let n = (of_char c :: nat) in
     (9 \<le> n \<and> n \<le> 13) \<or> (28 \<le> n \<and> n \<le> 32) \<or> n = 133 \<or> n = 160)"

definition strip :: "string \<Rightarrow> string" where
  "strip s = rev (dropWhile is_space (rev (dropWhile is_space s)))"

section \<open>split_node_names\<close>





section \<open>Command groups, collections and the store\<close>

text \<open>
  The fields every click \<open>MultiCommand\<close> has.  A callback is an opaque function identity,
  a parameter is known by its name.  \<open>name\<close> and \<open>help\<close> (here \<open>help_text\<close>) may be \<open>None\<close>.
\<close>

record multi_command =
  name :: "string option"
  help_text :: "string option"
  callback :: "nat option"
  params :: "string list"

text \<open>
  A \<open>click.Group\<close>: its \<open>commands\<close> dict is an association list in insertion order
  (a dict has each key once); \<open>'c\<close> is the type of command objects.
\<close>

record 'c cmd_group = multi_command +
  commands :: "(string \<times> 'c) list"

text \<open>
  \<open>_dedupe_commands\<close> assigns to \<open>cmd_group.commands\<close> of the group objects it is handed, so
  groups live in a store, addressed by numbers.
\<close>

type_synonym addr = nat

type_synonym 'c heap = "addr \<Rightarrow> 'c cmd_group"

text \<open>
  A \<open>click.CommandCollection\<close> lists its sources.  The collections that
  \<open>_merge_same_name_collections\<close> builds list groups of the store.
\<close>

record 's command_collection = multi_command +
  sources :: "'s list"

type_synonym cli_collection = "addr command_collection"

definition cmd_names :: "'c cmd_group \<Rightarrow> string set" where
  "cmd_names g = fst ` set (commands g)"

subsection \<open>Command lookup of click\<close>

text \<open>
  \<open>Group.get_command\<close> is \<open>self.commands.get(cmd_name)\<close>; \<open>CommandCollection.get_command\<close>
  asks its sources in order and returns the first answer that is not \<open>None\<close>.
\<close>

fun first_some :: "('a \<Rightarrow> 'b option) \<Rightarrow> 'a list \<Rightarrow> 'b option" where
  "first_some f [] = None"
| "first_some f (x # xs) = (case f x of Some y \<Rightarrow> Some y | None \<Rightarrow> first_some f xs)"

definition group_get_command :: "'c cmd_group \<Rightarrow> string \<Rightarrow> 'c option" where
  "group_get_command g cmd_name = map_of (commands g) cmd_name"

definition collection_get_command :: "'c heap \<Rightarrow> cli_collection \<Rightarrow> string \<Rightarrow> 'c option" where
  "collection_get_command h coll cmd_name =
     first_some (\<lambda>a. group_get_command (h a) cmd_name) (sources coll)"


definition names_of :: "'c heap \<Rightarrow> addr list \<Rightarrow> string set" where
  "names_of h addrs = \<Union> (set (map (\<lambda>a. cmd_names (h a)) addrs))"

definition collection_names :: "'c heap \<Rightarrow> cli_collection \<Rightarrow> string set" where
  "collection_names h coll = names_of h (sources coll)"

section \<open>CommandCollection._dedupe_commands\<close>

text \<open>
  One round of the inner loop: the group at address \<open>a\<close> keeps the commands whose names are
  not in \<open>seen_names\<close>, and the names it keeps are added to \<open>seen_names\<close>.
\<close>

definition dedupe_group :: "string set \<times> 'c heap \<Rightarrow> addr \<Rightarrow> string set \<times> 'c heap" where
  "dedupe_group st a = (case st of (seen_names, h) \<Rightarrow>
     let cmds = filter (\<lambda>(cmd_name, cmd). cmd_name \<notin> seen_names) (commands (h a))
     in (seen_names \<union> fst ` set cmds, h(a := (h a)\<lparr>commands := cmds\<rparr>)))"

definition dedupe_collection :: "string set \<times> 'c heap \<Rightarrow> cli_collection \<Rightarrow> string set \<times> 'c heap" where
  "dedupe_collection st cli_collection = foldl dedupe_group st (rev (sources cli_collection))"

definition dedupe_pass :: "cli_collection list \<Rightarrow> 'c heap \<Rightarrow> string set \<times> 'c heap" where
  "dedupe_pass cli_collections h = foldl dedupe_collection ({}, h) (rev cli_collections)"

text \<open>The second loop: every collection keeps the groups whose \<open>commands\<close> is not empty.\<close>

definition remove_empty :: "'c heap \<Rightarrow> cli_collection list \<Rightarrow> cli_collection list" where
  "remove_empty h cli_collections =
     map (\<lambda>coll. coll\<lparr>sources := filter (\<lambda>a. commands (h a) \<noteq> []) (sources coll)\<rparr>) cli_collections"

definition dedupe_commands :: "cli_collection list \<Rightarrow> 'c heap \<Rightarrow> cli_collection list \<times> 'c heap" where
  "dedupe_commands cli_collections h =
     (let h' = snd (dedupe_pass cli_collections h)
      in (remove_empty h' cli_collections, h'))"

definition all_groups :: "cli_collection list \<Rightarrow> addr list" where
  "all_groups cli_collections = concat (map sources cli_collections)"



subsection \<open>A router with three groups in two sources\<close>

text \<open>
  Commands are numbered objects.  Source \<open>A\<close> holds the groups at addresses 0 and 1, the later
  source \<open>B\<close> the group at address 2; all three have a command \<open>run\<close>.
\<close>

definition example_group :: "string \<Rightarrow> (string \<times> nat) list \<Rightarrow> nat cmd_group" where
  "example_group n cmds =
     \<lparr>name = Some n, help_text = None, callback = None, params = [], commands = cmds\<rparr>"

definition example_heap :: "nat heap" where
  "example_heap =
     (\<lambda>a. example_group ''unused'' [])
       (0 := example_group ''project'' [(''run'', 10), (''info'', 11)],
        1 := example_group ''extra'' [(''run'', 20)],
        2 := example_group ''plugin'' [(''run'', 30), (''new'', 31)])"

definition example_collection :: "string \<Rightarrow> addr list \<Rightarrow> cli_collection" where
  "example_collection n addrs =
     \<lparr>name = Some n, help_text = Some [], callback = None, params = [], sources = addrs\<rparr>"

definition example_A :: cli_collection where
  "example_A = example_collection ''project'' [0, 1]"

definition example_B :: cli_collection where
  "example_B = example_collection ''plugin'' [2]"

lemmas example_defs =
  example_group_def example_heap_def example_collection_def example_A_def example_B_def
  dedupe_commands_def dedupe_pass_def dedupe_collection_def dedupe_group_def remove_empty_def
  all_groups_def

section \<open>CommandCollection._merge_same_name_collections\<close>

text \<open>\<open>sep.join(xs)\<close> of Python.\<close>

fun join :: "string \<Rightarrow> string list \<Rightarrow> string" where
  "join sep [] = []"
| "join sep [x] = x"
| "join sep (x # y # ys) = x @ sep @ join sep (y # ys)"

text \<open>
  A \<open>defaultdict(list)\<close> is an association list in insertion order: \<open>dd[k].append(v)\<close>
  extends the list of a key that is there and adds a new key at the end; reading a key that is
  not there gives the empty list.
\<close>

fun dd_append :: "'k \<Rightarrow> 'v \<Rightarrow> ('k \<times> 'v list) list \<Rightarrow> ('k \<times> 'v list) list" where
  "dd_append k v [] = [(k, [v])]"
| "dd_append k v ((k', vs) # rest) =
     (if k' = k then (k', vs @ [v]) # rest else (k', vs) # dd_append k v rest)"

definition dd_get :: "('k \<times> 'v list) list \<Rightarrow> 'k \<Rightarrow> 'v list" where
  "dd_get dd k = (case map_of dd k of None \<Rightarrow> [] | Some vs \<Rightarrow> vs)"

text \<open>The truth value of an optional string: \<open>None\<close> and the empty string are false.\<close>

definition truthy :: "string option \<Rightarrow> bool" where
  "truthy s = (case s of None \<Rightarrow> False | Some t \<Rightarrow> t \<noteq> [])"

text \<open>
  One round of the loop over \<open>groups\<close>: the group is filed under its name, and so is its help
  when \<open>group.help\<close> is true.
\<close>

definition merge_step ::
  "'c heap \<Rightarrow> (string option \<times> addr list) list \<times> (string option \<times> string list) list \<Rightarrow> addr
     \<Rightarrow> (string option \<times> addr list) list \<times> (string option \<times> string list) list" where
  "merge_step h st grp = (case st of (named_groups, helps) \<Rightarrow>
     (dd_append (name (h grp)) grp named_groups,
      (if truthy (help_text (h grp))
       then dd_append (name (h grp)) (the (help_text (h grp))) helps
       else helps)))"

definition merge_same_name_collections :: "'c heap \<Rightarrow> addr list \<Rightarrow> cli_collection list" where
  "merge_same_name_collections h groups =
     (case foldl (merge_step h) ([], []) groups of (named_groups, helps) \<Rightarrow>
        map (\<lambda>(group_name, cli_list).
               \<lparr>name = group_name,
                help_text = Some (join ''\<newline>\<newline>'' (dd_get helps group_name)),
                callback = callback (h (hd cli_list)),
                params = params (h (hd cli_list)),
                sources = cli_list\<rparr>)
            (filter (\<lambda>(group_name, cli_list). cli_list \<noteq> []) named_groups))"

text \<open>
  The words of the specification: the distinct elements in the order of their first
  occurrence, the constituents of a name in their given order, their non-empty helps, and the
  collection that stands for a name.
\<close>

definition first_seen :: "'a list \<Rightarrow> 'a list" where
  "first_seen xs = rev (remdups (rev xs))"

definition constituents :: "'c heap \<Rightarrow> addr list \<Rightarrow> string option \<Rightarrow> addr list" where
  "constituents h groups n = filter (\<lambda>a. name (h a) = n) groups"

definition helps_of :: "'c heap \<Rightarrow> addr list \<Rightarrow> string list" where
  "helps_of h groups = concat (map (\<lambda>a. case help_text (h a) of None \<Rightarrow> [] | Some t \<Rightarrow> if t \<noteq> [] then [t] else []) groups)"

definition merged :: "'c heap \<Rightarrow> addr list \<Rightarrow> string option \<Rightarrow> cli_collection" where
  "merged h groups n =
     \<lparr>name = n,
      help_text = Some (join ''\<newline>\<newline>'' (helps_of h (constituents h groups n))),
      callback = callback (h (hd (constituents h groups n))),
      params = params (h (hd (constituents h groups n))),
      sources = constituents h groups n\<rparr>"


definition example_merge_heap :: "nat heap" where
  "example_merge_heap =
     (\<lambda>a. example_group ''unused'' [])
       (0 := \<lparr>name = Some ''project'', help_text = Some ''H1'', callback = Some 7,
               params = [''env''], commands = [(''x'', 1)]\<rparr>,
        1 := \<lparr>name = Some ''project'', help_text = Some ''H2'', callback = None,
               params = [], commands = [(''x'', 2), (''y'', 3)]\<rparr>)"

section \<open>The router: CommandCollection.main and _load_plugins\<close>

subsection \<open>Errors, entry points and the log\<close>

text \<open>
  The exceptions that leave the modelled functions.  \<open>Uncaught\<close> is an exception of a plugin
  that is a \<open>BaseException\<close> but not an \<open>Exception\<close> (\<open>SystemExit\<close>, \<open>KeyboardInterrupt\<close>).
\<close>

datatype error = IndexError | AttributeError | KeyError | ValueError
  | KedroCliError string | Uncaught string

datatype 'a res = Ok 'a | Raise error

text \<open>
  What \<open>entry_point.load()\<close> does: it returns the plugin's command group, or it raises.
\<close>

datatype 'c load_outcome = Returns "'c cmd_group" | RaisesException string
  | RaisesBaseException string

record 'c entry_point =
  ep_name :: string
  ep_module :: string
  load :: "'c load_outcome"

text \<open>
  A record of \<open>logger.warning(fmt, module, entry_point, exc)\<close>: the format string and its three
  arguments.
\<close>

datatype 'c log_record = Warning string string "'c entry_point" string

subsection \<open>The state\<close>

text \<open>
  A source of the router is one of the collections built by the constructor, or what a plugin's
  entry point returned; \<open>add_source\<close> appends whatever it is given, so a source can also be
  \<open>None\<close>.
\<close>

datatype 'c source = Collection cli_collection | Group "'c cmd_group"

record 'c router = "'c source option command_collection" +
  lazy_groups :: "(string \<times> 'c entry_point) list"

text \<open>
  The router \<open>self\<close>, the records logged so far and the entry points whose \<open>load()\<close> has been
  called so far, in the order of the calls.
\<close>

record 'c world =
  self :: "'c router"
  log :: "'c log_record list"
  loads :: "'c entry_point list"

subsection \<open>Listing and lookup of click\<close>

text \<open>
  \<open>Group.list_commands\<close> is \<open>sorted(self.commands)\<close>; \<open>CommandCollection.list_commands\<close> is the
  sorted set of the names its sources list.  Asking a source that is \<open>None\<close> raises
  \<open>AttributeError\<close>.
\<close>

definition group_list_commands :: "'c cmd_group \<Rightarrow> string list" where
  "group_list_commands g = sort (map fst (commands g))"

definition collection_list_commands :: "'c heap \<Rightarrow> cli_collection \<Rightarrow> string list" where
  "collection_list_commands h coll =
     sort (remdups (concat (map (\<lambda>a. group_list_commands (h a)) (sources coll))))"

fun source_list_commands :: "'c heap \<Rightarrow> 'c source \<Rightarrow> string list" where
  "source_list_commands h (Collection coll) = collection_list_commands h coll"
| "source_list_commands h (Group g) = group_list_commands g"

fun gather_commands :: "'c heap \<Rightarrow> 'c source option list \<Rightarrow> string list \<Rightarrow> error + string list" where
  "gather_commands h [] rv = Inr rv"
| "gather_commands h (None # srcs) rv = Inl AttributeError"
| "gather_commands h (Some src # srcs) rv = gather_commands h srcs (rv @ source_list_commands h src)"

definition list_commands :: "'c heap \<Rightarrow> 'c router \<Rightarrow> error + string list" where
  "list_commands h r =
     (case gather_commands h (sources r) [] of
        Inl e \<Rightarrow> Inl e
      | Inr rv \<Rightarrow> Inr (sort (remdups rv)))"

subsection \<open>_partial_match\<close>

text \<open>\<open>sub in s\<close> for two strings.\<close>

fun is_substring :: "string \<Rightarrow> string \<Rightarrow> bool" where
  "is_substring sub [] = (sub = [])"
| "is_substring sub (c # cs) = (take (length sub) (c # cs) = sub \<or> is_substring sub cs)"

fun partial_match :: "string list \<Rightarrow> string \<Rightarrow> string option" where
  "partial_match [] command_name = None"
| "partial_match (plugin_name # plugin_names) command_name =
     (if is_substring command_name plugin_name then Some plugin_name
      else partial_match plugin_names command_name)"

subsection \<open>_safe_load_entry_point\<close>

text \<open>
  \<open>except Exception\<close> catches what is an \<open>Exception\<close>, logs the warning and returns \<open>None\<close>;
  any other exception leaves the function.
\<close>

definition safe_load_entry_point ::
  "'c entry_point \<Rightarrow> 'c world \<Rightarrow> 'c cmd_group option res \<times> 'c world" where
  "safe_load_entry_point entry_point w =
     (let w1 = w\<lparr>loads := loads w @ [entry_point]\<rparr> in
      case load entry_point of
        Returns g \<Rightarrow> (Ok (Some g), w1)
      | RaisesException exc \<Rightarrow>
          (Ok None,
           w1\<lparr>log := log w1 @
             [Warning ''Failed to load %s commands from %s. Full exception: %s''
                (ep_module entry_point) entry_point exc]\<rparr>)
      | RaisesBaseException exc \<Rightarrow> (Raise (Uncaught exc), w1))"

subsection \<open>_load_plugins and main\<close>

text \<open>\<open>self.add_source(loaded_ep)\<close> is \<open>self.sources.append(loaded_ep)\<close>.\<close>

definition add_source :: "'c cmd_group option \<Rightarrow> 'c world \<Rightarrow> 'c world" where
  "add_source loaded_ep w =
     w\<lparr>self := (self w)\<lparr>sources := sources (self w) @ [map_option Group loaded_ep]\<rparr>\<rparr>"

text \<open>The loop \<open>for ep in self.lazy_groups.values()\<close>.\<close>

fun load_all :: "'c heap \<Rightarrow> string \<Rightarrow> 'c entry_point list \<Rightarrow> 'c world \<Rightarrow> unit res \<times> 'c world" where
  "load_all h command_name [] w = (Ok (), w)"
| "load_all h command_name (ep # eps) w =
     (case list_commands h (self w) of
        Inl e \<Rightarrow> (Raise e, w)
      | Inr names \<Rightarrow>
          if command_name \<in> set names then (Ok (), w)
          else (case safe_load_entry_point ep w of
                  (Raise e, w1) \<Rightarrow> (Raise e, w1)
                | (Ok loaded_ep, w1) \<Rightarrow> load_all h command_name eps (add_source loaded_ep w1)))"

text \<open>
  The first part of \<open>_load_plugins\<close>: when \<open>part_match\<close> is true (a name that is not empty), its
  entry point is loaded and added.  The result tells whether the function returns there.
\<close>

definition load_partial :: "'c heap \<Rightarrow> string \<Rightarrow> 'c world \<Rightarrow> bool res \<times> 'c world" where
  "load_partial h command_name w =
     (let ep_names = map fst (lazy_groups (self w));
          part_match = partial_match ep_names command_name
      in if truthy part_match then
           (case map_of (lazy_groups (self w)) (the part_match) of
              None \<Rightarrow> (Raise KeyError, w)
            | Some ep \<Rightarrow>
                (case safe_load_entry_point ep w of
                   (Raise e, w1) \<Rightarrow> (Raise e, w1)
                 | (Ok loaded_ep, w1) \<Rightarrow>
                     let w2 = add_source loaded_ep w1 in
                     (case list_commands h (self w2) of
                        Inl e \<Rightarrow> (Raise e, w2)
                      | Inr names \<Rightarrow> (Ok (command_name \<in> set names), w2))))
         else (Ok False, w))"

definition load_plugins :: "'c heap \<Rightarrow> string \<Rightarrow> 'c world \<Rightarrow> unit res \<times> 'c world" where
  "load_plugins h command_name w =
     (case load_partial h command_name w of
        (Raise e, w1) \<Rightarrow> (Raise e, w1)
      | (Ok True, w1) \<Rightarrow> (Ok (), w1)
      | (Ok False, w1) \<Rightarrow> load_all h command_name (map snd (lazy_groups (self w1))) w1)"

text \<open>
  \<open>main\<close>: \<open>super().main\<close> is click's, a parameter here.  \<open>args[0]\<close> of an empty sequence raises
  \<open>IndexError\<close>.
\<close>

definition main ::
  "'c heap \<Rightarrow> ('c world \<Rightarrow> string list option \<Rightarrow> 'r res \<times> 'c world) \<Rightarrow> string list option
     \<Rightarrow> 'c world \<Rightarrow> 'r res \<times> 'c world" where
  "main h super_main args w =
     (case args of
        None \<Rightarrow> super_main w args
      | Some [] \<Rightarrow> (Raise IndexError, w)
      | Some (arg0 # rest) \<Rightarrow>
          (case list_commands h (self w) of
             Inl e \<Rightarrow> (Raise e, w)
           | Inr names \<Rightarrow>
               if arg0 \<notin> set names then
                 (case load_plugins h arg0 w of
                    (Raise e, w1) \<Rightarrow> (Raise e, w1)
                  | (Ok u, w1) \<Rightarrow> super_main w1 args)
               else super_main w args))"

subsection \<open>Words of the specification about plugin loading\<close>

text \<open>
  The source that \<open>add_source\<close> is given after \<open>_safe_load_entry_point\<close> has returned;
  whether a command name is among the commands that a list of sources lists; the entry point
  of the first plugin name that contains the typed command (none when that name is empty,
  which \<open>if part_match\<close> takes for false); and the state after the entry points \<open>eps\<close> have
  been loaded and added, one after the other.
\<close>

definition returned :: "'c entry_point \<Rightarrow> 'c source option" where
  "returned ep = (case load ep of Returns g \<Rightarrow> Some (Group g) | _ \<Rightarrow> None)"

definition resolvable :: "'c heap \<Rightarrow> 'c source option list \<Rightarrow> string \<Rightarrow> bool" where
  "resolvable h srcs command_name =
     (case gather_commands h srcs [] of Inl e \<Rightarrow> False | Inr rv \<Rightarrow> command_name \<in> set rv)"

definition partial_handle :: "(string \<times> 'c entry_point) list \<Rightarrow> string \<Rightarrow> 'c entry_point list" where
  "partial_handle lazy command_name =
     (case find (\<lambda>(plugin_name, ep). is_substring command_name plugin_name) lazy of
        None \<Rightarrow> []
      | Some (plugin_name, ep) \<Rightarrow> if plugin_name \<noteq> [] then [ep] else [])"

definition after_loading :: "'c world \<Rightarrow> 'c entry_point list \<Rightarrow> 'c world" where
  "after_loading w eps =
     w\<lparr>self := (self w)\<lparr>sources := sources (self w) @ map returned eps\<rparr>,
       loads := loads w @ eps\<rparr>"


subsection \<open>Two plugins that load, and one that does not\<close>

text \<open>
  The router of the examples has one eager source, the collection \<open>example_B\<close> with the
  commands \<open>run\<close> and \<open>new\<close>, and two lazy plugins, \<open>kedro-viz\<close> and \<open>kedro-docker\<close>.
\<close>

definition ep_viz :: "nat entry_point" where
  "ep_viz = \<lparr>ep_name = ''kedro-viz'', ep_module = ''kedro_viz.launchers.cli'',
             load = Returns (example_group ''viz'' [(''viz'', 1)])\<rparr>"

definition ep_docker :: "nat entry_point" where
  "ep_docker = \<lparr>ep_name = ''kedro-docker'', ep_module = ''kedro_docker.plugin'',
                load = Returns (example_group ''docker'' [(''docker'', 2), (''docker-build'', 3)])\<rparr>"

definition ep_viz_broken :: "nat entry_point" where
  "ep_viz_broken = \<lparr>ep_name = ''kedro-viz'', ep_module = ''kedro_viz.launchers.cli'',
                    load = RaisesException ''No module named kedro_viz''\<rparr>"

definition example_world :: "(string \<times> nat entry_point) list \<Rightarrow> nat world" where
  "example_world lazy =
     \<lparr>self = \<lparr>name = None, help_text = Some [], callback = None, params = [],
               sources = [Some (Collection example_B)], lazy_groups = lazy\<rparr>,
      log = [], loads = []\<rparr>"

definition lazy_ok :: "(string \<times> nat entry_point) list" where
  "lazy_ok = [(''kedro-viz'', ep_viz), (''kedro-docker'', ep_docker)]"

definition lazy_broken :: "(string \<times> nat entry_point) list" where
  "lazy_broken = [(''kedro-viz'', ep_viz_broken), (''kedro-docker'', ep_docker)]"

text \<open>A \<open>super().main\<close> that does nothing.\<close>

definition no_dispatch :: "nat world \<Rightarrow> string list option \<Rightarrow> unit res \<times> nat world" where
  "no_dispatch w args = (Ok (), w)"

lemmas world_defs = example_world_def lazy_ok_def lazy_broken_def ep_viz_def ep_docker_def
  ep_viz_broken_def example_group_def no_dispatch_def

section \<open>The fuzzy suggester: difflib.get_close_matches and _suggest_cli_command\<close>

subsection \<open>difflib.SequenceMatcher\<close>

text \<open>
  \<open>_suggest_cli_command\<close> calls \<open>difflib.get_close_matches\<close> of the Python standard
  library, which compares the typed word with each candidate by a \<open>SequenceMatcher\<close> with
  \<open>a\<close> the candidate and \<open>b\<close> the word.  The definitions follow \<open>Lib/difflib.py\<close>.

  \<open>b2j\<close> maps a character to the positions where it occurs in \<open>b\<close>; no character is junk
  (\<open>isjunk\<close> is \<open>None\<close>), and for \<open>b\<close> of 200 characters or more a character that takes up
  more than one position in a hundred, plus one, is "popular" and has no entry.
\<close>

definition indices_of :: "char \<Rightarrow> string \<Rightarrow> nat list" where
  "indices_of elt b = filter (\<lambda>j. b ! j = elt) [0..<length b]"

definition popular :: "string \<Rightarrow> char \<Rightarrow> bool" where
  "popular b elt = (200 \<le> length b \<and> length b div 100 + 1 < length (indices_of elt b))"

definition b2j :: "string \<Rightarrow> char \<Rightarrow> nat list" where
  "b2j b elt = (if popular b elt then [] else indices_of elt b)"

definition isbjunk :: "char \<Rightarrow> bool" where
  "isbjunk c = False"

text \<open>
  A match \<open>(i, j, k)\<close> says that \<open>a[i:i+k]\<close> equals \<open>b[j:j+k]\<close>.  \<open>match_row\<close> is the inner
  loop of \<open>find_longest_match\<close> for the row \<open>i\<close>: \<open>j2len\<close> holds, for the row before, the
  length of the longest match that ends at each position of \<open>b\<close> (\<open>j2len.get(j-1, 0)\<close> is 0 for
  \<open>j = 0\<close>); the positions are increasing, so \<open>break\<close> skips the rest.
\<close>

type_synonym match = "nat \<times> nat \<times> nat"

fun match_row ::
  "nat \<Rightarrow> nat \<Rightarrow> nat \<Rightarrow> (nat \<rightharpoonup> nat) \<Rightarrow> nat list \<Rightarrow> (nat \<rightharpoonup> nat) \<times> match \<Rightarrow> (nat \<rightharpoonup> nat) \<times> match" where
  "match_row i blo bhi j2len [] st = st"
| "match_row i blo bhi j2len (j # js) (newj2len, best) =
     (if j < blo then match_row i blo bhi j2len js (newj2len, best)
      else if bhi \<le> j then (newj2len, best)
      else let k = (if j = 0 then 0 else case j2len (j - 1) of None \<Rightarrow> 0 | Some v \<Rightarrow> v) + 1;
               best' = (case best of (besti, bestj, bestsize) \<Rightarrow>
                          if bestsize < k then (i + 1 - k, j + 1 - k, k) else best)
           in match_row i blo bhi j2len js (newj2len(j \<mapsto> k), best'))"

definition match_rows :: "string \<Rightarrow> string \<Rightarrow> nat \<Rightarrow> nat \<Rightarrow> nat \<Rightarrow> nat \<Rightarrow> match" where
  "match_rows a b alo ahi blo bhi =
     snd (foldl (\<lambda>st i. match_row i blo bhi (fst st) (b2j b (a ! i)) (Map.empty, snd st))
            (Map.empty, (alo, blo, 0)) [alo..<ahi])"

text \<open>The four loops that extend the best match at both ends.\<close>

function extend_left :: "(char \<Rightarrow> bool) \<Rightarrow> string \<Rightarrow> string \<Rightarrow> nat \<Rightarrow> nat \<Rightarrow> match \<Rightarrow> match" where
  "extend_left P a b alo blo (besti, bestj, bestsize) =
     (if alo < besti \<and> blo < bestj \<and> P (b ! (bestj - 1)) \<and> a ! (besti - 1) = b ! (bestj - 1)
      then extend_left P a b alo blo (besti - 1, bestj - 1, bestsize + 1)
      else (besti, bestj, bestsize))"
  by pat_completeness auto
termination
  by (relation "measure (\<lambda>(P, a, b, alo, blo, besti, bestj, bestsize). besti)") auto

function extend_right :: "(char \<Rightarrow> bool) \<Rightarrow> string \<Rightarrow> string \<Rightarrow> nat \<Rightarrow> nat \<Rightarrow> match \<Rightarrow> match" where
  "extend_right P a b ahi bhi (besti, bestj, bestsize) =
     (if besti + bestsize < ahi \<and> bestj + bestsize < bhi \<and> P (b ! (bestj + bestsize)) \<and>
         a ! (besti + bestsize) = b ! (bestj + bestsize)
      then extend_right P a b ahi bhi (besti, bestj, bestsize + 1)
      else (besti, bestj, bestsize))"
  by pat_completeness auto
termination
  by (relation "measure (\<lambda>(P, a, b, ahi, bhi, besti, bestj, bestsize). ahi - (besti + bestsize))") auto

declare extend_left.simps [simp del] extend_right.simps [simp del]

definition find_longest_match :: "string \<Rightarrow> string \<Rightarrow> nat \<Rightarrow> nat \<Rightarrow> nat \<Rightarrow> nat \<Rightarrow> match" where
  "find_longest_match a b alo ahi blo bhi =
     extend_right isbjunk a b ahi bhi
       (extend_left isbjunk a b alo blo
          (extend_right (\<lambda>c. \<not> isbjunk c) a b ahi bhi
             (extend_left (\<lambda>c. \<not> isbjunk c) a b alo blo
                (match_rows a b alo ahi blo bhi))))"


text \<open>
  Where the match that \<open>find_longest_match\<close> returns lies: inside the two ranges.  The
  subtractions \<open>i + 1 - k\<close> and \<open>j + 1 - k\<close> of \<open>match_row\<close> are never cut off at 0, and the
  loop of \<open>get_matching_blocks\<close> ends.
\<close>

definition row_ok :: "nat \<Rightarrow> nat \<Rightarrow> (nat \<rightharpoonup> nat) \<Rightarrow> bool" where
  "row_ok blo n j2len = (\<forall>j v. j2len j = Some v \<longrightarrow> v \<le> n \<and> v \<le> j + 1 - blo \<and> blo \<le> j)"

definition best_ok :: "nat \<Rightarrow> nat \<Rightarrow> nat \<Rightarrow> nat \<Rightarrow> match \<Rightarrow> bool" where
  "best_ok alo ahi blo bhi m = (case m of (besti, bestj, bestsize) \<Rightarrow>
     alo \<le> besti \<and> blo \<le> bestj \<and> besti + bestsize \<le> max alo ahi \<and> bestj + bestsize \<le> max blo bhi)"

lemma match_row_ok:
  assumes "alo \<le> i" and "row_ok blo (i - alo) j2len"
    and "row_ok blo (i + 1 - alo) newj2len" and "best_ok alo (i + 1) blo bhi best"
    and "match_row i blo bhi j2len js (newj2len, best) = (res, best')"
  shows "row_ok blo (i + 1 - alo) res \<and> best_ok alo (i + 1) blo bhi best'"
  using assms(3-5)
proof (induction js arbitrary: newj2len best)
  case Nil
  then show ?case by simp
next
  case (Cons j js)
  show ?case
  proof (cases "j < blo")
    case True
    then show ?thesis using Cons by simp
  next
    case False
    note nb = False
    show ?thesis
    proof (cases "bhi \<le> j")
      case True
      then show ?thesis using Cons nb by simp
    next
      case False
      define k where "k = (if j = 0 then 0 else case j2len (j - 1) of None \<Rightarrow> 0 | Some v \<Rightarrow> v) + 1"
      obtain bi bj bs where best: "best = (bi, bj, bs)" by (cases best)
      define nbest where "nbest = (if bs < k then (i + 1 - k, j + 1 - k, k) else best)"
      have prev: "(if j = 0 then 0 else case j2len (j - 1) of None \<Rightarrow> 0 | Some v \<Rightarrow> v) \<le> i - alo \<and>
                  (if j = 0 then 0 else case j2len (j - 1) of None \<Rightarrow> 0 | Some v \<Rightarrow> v) \<le> j - blo"
      proof (cases "j = 0")
        case True
        then show ?thesis by simp
      next
        case j0: False
        show ?thesis
        proof (cases "j2len (j - 1)")
          case None
          then show ?thesis using j0 by simp
        next
          case (Some v)
          then have "v \<le> i - alo \<and> v \<le> (j - 1) + 1 - blo \<and> blo \<le> j - 1"
            using assms(2) by (simp add: row_ok_def)
          then show ?thesis using j0 Some by simp
        qed
      qed
      then have kb: "k \<le> i + 1 - alo" "k \<le> j + 1 - blo" "1 \<le> k"
        using assms(1) nb by (auto simp: k_def)
      have r: "row_ok blo (i + 1 - alo) (newj2len(j \<mapsto> k))"
        using Cons.prems(1) kb nb by (auto simp: row_ok_def)
      have b: "best_ok alo (i + 1) blo bhi nbest"
        using Cons.prems(2) kb nb False assms(1) by (auto simp: best_ok_def nbest_def best)
      have step: "match_row i blo bhi j2len (j # js) (newj2len, best) =
                  match_row i blo bhi j2len js (newj2len(j \<mapsto> k), nbest)"
        using nb False by (simp add: k_def nbest_def best Let_def)
      have "match_row i blo bhi j2len js (newj2len(j \<mapsto> k), nbest) = (res, best')"
        using Cons.prems(3) unfolding step .
      then show ?thesis by (rule Cons.IH[OF r b])
    qed
  qed
qed

lemma match_rows_fold_ok:
  assumes "alo \<le> n"
  shows "row_ok blo (n - alo)
           (fst (foldl (\<lambda>st i. match_row i blo bhi (fst st) (b2j b (a ! i)) (Map.empty, snd st))
                   (Map.empty, (alo, blo, 0)) [alo..<n])) \<and>
         best_ok alo n blo bhi
           (snd (foldl (\<lambda>st i. match_row i blo bhi (fst st) (b2j b (a ! i)) (Map.empty, snd st))
                   (Map.empty, (alo, blo, 0)) [alo..<n]))"
  using assms
proof (induction n)
  case 0
  then show ?case by (simp add: row_ok_def best_ok_def)
next
  case (Suc n)
  show ?case
  proof (cases "alo = Suc n")
    case True
    then show ?thesis by (simp add: row_ok_def best_ok_def)
  next
    case False
    then have le: "alo \<le> n" using Suc.prems by simp
    let ?st = "foldl (\<lambda>st i. match_row i blo bhi (fst st) (b2j b (a ! i)) (Map.empty, snd st))
                   (Map.empty, (alo, blo, 0)) [alo..<n]"
    have ih: "row_ok blo (n - alo) (fst ?st)" "best_ok alo n blo bhi (snd ?st)"
      using Suc.IH[OF le] by simp_all
    have b1: "best_ok alo (n + 1) blo bhi (snd ?st)"
      using ih(2) by (auto simp: best_ok_def)
    obtain res best' where mr: "match_row n blo bhi (fst ?st) (b2j b (a ! n)) (Map.empty, snd ?st) = (res, best')"
      by (cases "match_row n blo bhi (fst ?st) (b2j b (a ! n)) (Map.empty, snd ?st)")
    have "row_ok blo (n + 1 - alo) res \<and> best_ok alo (n + 1) blo bhi best'"
      by (rule match_row_ok[OF le ih(1) _ b1 mr]) (simp add: row_ok_def)
    then show ?thesis using le mr by simp
  qed
qed

lemma match_rows_ok: "best_ok alo ahi blo bhi (match_rows a b alo ahi blo bhi)"
proof (cases "alo \<le> ahi")
  case True
  then show ?thesis using match_rows_fold_ok[OF True, of blo bhi b a] by (simp add: match_rows_def)
next
  case False
  then show ?thesis by (simp add: match_rows_def best_ok_def)
qed

lemma extend_left_ok:
  "best_ok alo ahi blo bhi m \<Longrightarrow> best_ok alo ahi blo bhi (extend_left P a b alo blo m)"
proof (induction P a b alo blo m rule: extend_left.induct)
  case (1 P a b alo blo besti bestj bestsize)
  show ?case
  proof (cases "alo < besti \<and> blo < bestj \<and> P (b ! (bestj - 1)) \<and> a ! (besti - 1) = b ! (bestj - 1)")
    case True
    have "best_ok alo ahi blo bhi (besti - 1, bestj - 1, bestsize + 1)"
      using "1.prems" True by (auto simp: best_ok_def)
    then show ?thesis using "1.IH"[OF True] True by (subst extend_left.simps) simp
  next
    case False
    then show ?thesis using "1.prems" by (subst extend_left.simps) auto
  qed
qed

lemma extend_right_ok:
  "best_ok alo ahi blo bhi m \<Longrightarrow> best_ok alo ahi blo bhi (extend_right P a b ahi bhi m)"
proof (induction P a b ahi bhi m rule: extend_right.induct)
  case (1 P a b ahi bhi besti bestj bestsize)
  show ?case
  proof (cases "besti + bestsize < ahi \<and> bestj + bestsize < bhi \<and> P (b ! (bestj + bestsize)) \<and>
         a ! (besti + bestsize) = b ! (bestj + bestsize)")
    case True
    have "best_ok alo ahi blo bhi (besti, bestj, bestsize + 1)"
      using "1.prems" True by (auto simp: best_ok_def)
    then show ?thesis using "1.IH"[OF True] True by (subst extend_right.simps) simp
  next
    case False
    then show ?thesis using "1.prems" by (subst extend_right.simps) auto
  qed
qed

lemma find_longest_match_ok: "best_ok alo ahi blo bhi (find_longest_match a b alo ahi blo bhi)"
  unfolding find_longest_match_def
  by (intro extend_right_ok extend_left_ok match_rows_ok)

lemma find_longest_match_bounds:
  assumes "find_longest_match a b alo ahi blo bhi = (i, j, k)" and "k \<noteq> 0"
  shows "alo \<le> i \<and> i + k \<le> ahi \<and> blo \<le> j \<and> j + k \<le> bhi"
proof -
  have "best_ok alo ahi blo bhi (i, j, k)"
    using find_longest_match_ok[of alo ahi blo bhi a b] assms(1) by simp
  then show ?thesis using assms(2) by (auto simp: best_ok_def max_def split: if_splits)
qed


text \<open>
  The loop of \<open>get_matching_blocks\<close>: \<open>queue.pop()\<close> takes the range that was added last,
  so the head of the list is the end of the Python list.
\<close>

function matching_loop :: "string \<Rightarrow> string \<Rightarrow> (nat \<times> nat \<times> nat \<times> nat) list \<Rightarrow> match list \<Rightarrow> match list" where
  "matching_loop a b [] matching_blocks = matching_blocks"
| "matching_loop a b ((alo, ahi, blo, bhi) # queue) matching_blocks =
     (case find_longest_match a b alo ahi blo bhi of (i, j, k) \<Rightarrow>
        if k \<noteq> 0 then
          matching_loop a b
            ((if i + k < ahi \<and> j + k < bhi then [(i + k, ahi, j + k, bhi)] else []) @
             (if alo < i \<and> blo < j then [(alo, i, blo, j)] else []) @ queue)
            (matching_blocks @ [(i, j, k)])
        else matching_loop a b queue matching_blocks)"
  by pat_completeness auto
termination
proof (relation "measure (\<lambda>(a, b, queue, blocks).
          sum_list (map (\<lambda>(alo, ahi, blo, bhi). 2 * (ahi - alo) + 1) queue))", goal_cases)
  case 1
  show ?case by simp
next
  case (2 a b alo ahi blo bhi queue matching_blocks i y j k)
  then have "find_longest_match a b alo ahi blo bhi = (i, j, k)" by simp
  from find_longest_match_bounds[OF this 2(3)] 2(3)
  have "alo \<le> i" "i + k \<le> ahi" "0 < k" by simp_all
  then show ?case by auto
next
  case 3
  then show ?case by simp
qed

declare matching_loop.simps [simp del]

text \<open>The blocks are sorted, adjacent ones are joined and a block of size 0 ends the list.\<close>

fun collapse_step :: "match \<times> match list \<Rightarrow> match \<Rightarrow> match \<times> match list" where
  "collapse_step ((i1, j1, k1), non_adjacent) (i2, j2, k2) =
     (if i1 + k1 = i2 \<and> j1 + k1 = j2 then ((i1, j1, k1 + k2), non_adjacent)
      else ((i2, j2, k2), if k1 \<noteq> 0 then non_adjacent @ [(i1, j1, k1)] else non_adjacent))"

definition get_matching_blocks :: "string \<Rightarrow> string \<Rightarrow> match list" where
  "get_matching_blocks a b =
     (let la = length a; lb = length b;
          matching_blocks = sort (matching_loop a b [(0, la, 0, lb)] [])
      in case foldl collapse_step ((0, 0, 0), []) matching_blocks of
           ((i1, j1, k1), non_adjacent) \<Rightarrow>
             (if k1 \<noteq> 0 then non_adjacent @ [(i1, j1, k1)] else non_adjacent) @ [(la, lb, 0)])"

text \<open>
  The three ratios.  Python computes \<open>2.0 * matches / length\<close> in floating point; the model has
  the rational number.  The division of two integers below \<open>2^53\<close> is rounded to the nearest
  float, which is monotone and exact for \<open>1/2\<close>, so the comparisons with the cutoff \<open>0.5\<close> come
  out the same, and so does the order of two ratios of strings of fewer than \<open>2^26\<close> characters.
\<close>

definition calculate_ratio :: "nat \<Rightarrow> nat \<Rightarrow> rat" where
  "calculate_ratio matches len = (if len \<noteq> 0 then 2 * of_nat matches / of_nat len else 1)"

definition ratio :: "string \<Rightarrow> string \<Rightarrow> rat" where
  "ratio a b =
     calculate_ratio (sum_list (map (\<lambda>(i, j, k). k) (get_matching_blocks a b))) (length a + length b)"

definition quick_step :: "string \<Rightarrow> (char \<rightharpoonup> int) \<times> nat \<Rightarrow> char \<Rightarrow> (char \<rightharpoonup> int) \<times> nat" where
  "quick_step b st elt = (case st of (avail, matches) \<Rightarrow>
     let numb = (case avail elt of Some n \<Rightarrow> n | None \<Rightarrow> int (count_list b elt))
     in (avail(elt \<mapsto> numb - 1), if 0 < numb then matches + 1 else matches))"

definition quick_ratio :: "string \<Rightarrow> string \<Rightarrow> rat" where
  "quick_ratio a b =
     calculate_ratio (snd (foldl (quick_step b) (Map.empty, 0) a)) (length a + length b)"

definition real_quick_ratio :: "string \<Rightarrow> string \<Rightarrow> rat" where
  "real_quick_ratio a b = calculate_ratio (min (length a) (length b)) (length a + length b)"

text \<open>
  \<open>heapq.nlargest(n, result)\<close> is \<open>sorted(result, reverse=True)[:n]\<close>; the pairs
  \<open>(score, x)\<close> are compared by score first and by the string \<open>x\<close> second, and two pairs that
  compare equal are the same pair.
\<close>

definition nlargest :: "nat \<Rightarrow> ('a::linorder) list \<Rightarrow> 'a list" where
  "nlargest n xs = take n (rev (sort xs))"

definition get_close_matches :: "string \<Rightarrow> string list \<Rightarrow> int \<Rightarrow> rat \<Rightarrow> error + string list" where
  "get_close_matches word possibilities n cutoff =
     (if \<not> 0 < n then Inl ValueError
      else if \<not> (0 \<le> cutoff \<and> cutoff \<le> 1) then Inl ValueError
      else let result = map (\<lambda>x. (ratio x word, x))
                 (filter (\<lambda>x. cutoff \<le> real_quick_ratio x word \<and> cutoff \<le> quick_ratio x word \<and>
                               cutoff \<le> ratio x word) possibilities)
           in Inr (map snd (nlargest (nat n) result)))"


subsection \<open>textwrap.indent and _suggest_cli_command\<close>

definition MAX_SUGGESTIONS :: int where
  "MAX_SUGGESTIONS = 3"

definition CUTOFF :: rat where
  "CUTOFF = 1 / 2"

text \<open>
  \<open>text.splitlines(True)\<close>: a line ends after a line boundary, which stays with the line;
  a carriage return followed by a line feed is one boundary.  \<open>indent\<close> puts the prefix before
  every line that does not consist of white space only.
\<close>

definition is_linebreak :: "char \<Rightarrow> bool" where
  "is_linebreak c = (let n = (of_char c :: nat) in (10 \<le> n \<and> n \<le> 13) \<or> (28 \<le> n \<and> n \<le> 30) \<or> n = 133)"

fun splitlines :: "string \<Rightarrow> string \<Rightarrow> string list" where
  "splitlines line [] = (if line = [] then [] else [line])"
| "splitlines line [c] = [line @ [c]]"
| "splitlines line (c # d # cs) =
     (if c = CHR 0x0D \<and> d = CHR 0x0A then (line @ [c, d]) # splitlines [] cs
      else if is_linebreak c then (line @ [c]) # splitlines [] (d # cs)
      else splitlines (line @ [c]) (d # cs))"

definition indent :: "string \<Rightarrow> string \<Rightarrow> string" where
  "indent text prefix =
     concat (map (\<lambda>line. if strip line \<noteq> [] then prefix @ line else line) (splitlines [] text))"

definition suggest_cli_command :: "string \<Rightarrow> string list \<Rightarrow> error + string" where
  "suggest_cli_command original_command_name existing_command_names =
     (case get_close_matches original_command_name existing_command_names MAX_SUGGESTIONS CUTOFF of
        Inl e \<Rightarrow> Inl e
      | Inr matches \<Rightarrow>
          if matches = [] then Inr []
          else let suggestion =
                     (if length matches = 1 then ''\<newline>\<newline>Did you mean this?''
                      else ''\<newline>\<newline>Did you mean one of these?\<newline>'')
               in Inr (suggestion @ indent (join ''\<newline>'' matches) (replicate 4 CHR '' '')))"

text \<open>
  The words of the specification: the matches that the suggester works with, and a candidate
  name that has no line boundary in it and is not white space only.
\<close>

definition close_matches :: "string \<Rightarrow> string list \<Rightarrow> string list" where
  "close_matches word possibilities =
     (case get_close_matches word possibilities MAX_SUGGESTIONS CUTOFF of Inl e \<Rightarrow> [] | Inr ms \<Rightarrow> ms)"

definition clean_name :: "string \<Rightarrow> bool" where
  "clean_name m = ((\<forall>c \<in> set m. \<not> is_linebreak c) \<and> (\<exists>c \<in> set m. \<not> is_space c))"

section \<open>The config file: _validate_config_file and _config_file_callback\<close>

text \<open>
  Of click's \<open>Context\<close> the callback uses \<open>default_map\<close>, a dict or \<open>None\<close>, and \<open>info_name\<close>.
  The callback returns its variable \<open>value\<close>, which is the path it was given, or, after the
  loop \<open>for key, value in config.items()\<close> has run, the last value of the config.
\<close>

record 'v click_context =
  default_map :: "(string \<rightharpoonup> 'v) option"
  info_name :: "string option"

datatype 'v callback_value = Path "string option" | ConfigValue 'v

text \<open>
  \<open>_validate_config_file\<close>: the names of the parameters of the \<open>run\<close> command
  (\<open>kedro.framework.cli.project\<close>) are the parameter \<open>run_params\<close>.  \<open>run_args.remove("config")\<close>
  raises \<open>ValueError\<close> when \<open>config\<close> is not among them.  The class attribute
  \<open>VERBOSE_EXISTS\<close>, set before the error is raised, only changes how the error is printed and
  is not part of the model.
\<close>

definition validate_config_file :: "string list \<Rightarrow> string \<Rightarrow> error + unit" where
  "validate_config_file run_params key =
     (if ''config'' \<notin> set run_params then Inl ValueError
      else let run_args = remove1 ''config'' run_params in
        if key \<notin> set run_args then
          (case suggest_cli_command key run_args of
             Inl e \<Rightarrow> Inl e
           | Inr message \<Rightarrow>
               Inl (KedroCliError
                 (''Key `'' @ key @ ''` in provided configuration is not valid. '' @ message)))
        else Inr ())"

fun validate_items ::
  "string list \<Rightarrow> (string \<times> 'v) list \<Rightarrow> 'v callback_value \<Rightarrow> error + 'v callback_value" where
  "validate_items run_params [] value = Inr value"
| "validate_items run_params ((key, v) # items) value =
     (case validate_config_file run_params key of
        Inl e \<Rightarrow> Inl e
      | Inr u \<Rightarrow> validate_items run_params items (ConfigValue v))"

text \<open>
  \<open>_config_file_callback\<close>: \<open>load_file\<close> stands for
  \<open>OmegaConf.to_container(OmegaConf.load(value))\<close>, which gives the sections of the file or
  raises.
\<close>

definition config_file_callback ::
  "(string \<Rightarrow> error + (string \<times> (string \<times> 'v) list) list) \<Rightarrow> string list \<Rightarrow> 'v click_context
     \<Rightarrow> string option \<Rightarrow> 'v callback_value res \<times> 'v click_context" where
  "config_file_callback load_file run_params ctx value =
     (let ctx1 = ctx\<lparr>default_map :=
                   Some (case default_map ctx of None \<Rightarrow> Map.empty | Some m \<Rightarrow> m)\<rparr>;
          section = info_name ctx
      in if truthy value then
           (case load_file (the value) of
              Inl e \<Rightarrow> (Raise e, ctx1)
            | Inr container \<Rightarrow>
                (case (case section of None \<Rightarrow> None | Some n \<Rightarrow> map_of container n) of
                   None \<Rightarrow> (Raise KeyError, ctx1)
                 | Some config \<Rightarrow>
                     (case validate_items run_params config (Path value) of
                        Inl e \<Rightarrow> (Raise e, ctx1)
                      | Inr value' \<Rightarrow>
                          (Ok value',
                           ctx1\<lparr>default_map :=
                             Some ((case default_map ctx1 of None \<Rightarrow> Map.empty | Some m \<Rightarrow> m) ++
                                   map_of config)\<rparr>))))
         else (Ok (Path value), ctx1))"

text \<open>
  click's \<open>Context.lookup_default\<close> and \<open>Parameter.consume_value\<close>: the value of a parameter
  is the one of the command line, else the one of its environment variable, else the one of
  \<open>default_map\<close>, else its own default.
\<close>

definition lookup_default :: "'v click_context \<Rightarrow> string \<Rightarrow> 'v option" where
  "lookup_default ctx param_name =
     (case default_map ctx of None \<Rightarrow> None | Some m \<Rightarrow> m param_name)"

definition consume_value ::
  "(string \<rightharpoonup> 'v) \<Rightarrow> (string \<rightharpoonup> 'v) \<Rightarrow> 'v click_context \<Rightarrow> 'v option \<Rightarrow> string \<Rightarrow> 'v option" where
  "consume_value opts envvars ctx dflt param_name =
     (case opts param_name of
        Some v \<Rightarrow> Some v
      | None \<Rightarrow>
          (case envvars param_name of
             Some v \<Rightarrow> Some v
           | None \<Rightarrow>
               (case lookup_default ctx param_name of
                  Some v \<Rightarrow> Some v
                | None \<Rightarrow> dflt)))"


subsection \<open>A run command with the parameters env, pipeline and config\<close>

definition example_run_params :: "string list" where
  "example_run_params = [''env'', ''pipeline'', ''config'']"

definition example_load_file :: "(string \<times> string) list \<Rightarrow> string \<Rightarrow> error + (string \<times> (string \<times> string) list) list" where
  "example_load_file config path = Inr [(''run'', config)]"

definition example_context :: "string click_context" where
  "example_context = \<lparr>default_map = None, info_name = Some ''run''\<rparr>"

section \<open>Lemmas about the deduplication pass\<close>

lemma dedupe_pass_flat:
  "dedupe_pass colls h = foldl dedupe_group ({}, h) (rev (all_groups colls))"
proof -
  have "foldl dedupe_collection st cs = foldl dedupe_group st (concat (map (\<lambda>c. rev (sources c)) cs))" for st :: "string set \<times> 'a heap" and cs
    by (induction cs arbitrary: st) (simp_all add: dedupe_collection_def)
  then show ?thesis
    by (simp add: dedupe_pass_def all_groups_def rev_concat rev_map comp_def)
qed

lemma cmd_names_filter:
  "cmd_names (g\<lparr>commands := filter (\<lambda>(n, c). n \<notin> S) (commands g)\<rparr>) = cmd_names g - S"
  by (auto simp: cmd_names_def image_iff)

lemma dedupe_group_simp:
  "dedupe_group (seen, h) a =
     (seen \<union> cmd_names (h a), h(a := (h a)\<lparr>commands := filter (\<lambda>(n, c). n \<notin> seen) (commands (h a))\<rparr>))"
  by (auto simp: dedupe_group_def Let_def cmd_names_def image_iff)

text \<open>
  What holds after the inner loop has visited the addresses \<open>xs\<close>, whether or not an address
  occurs twice: the kept names of a visited group are in \<open>seen_names\<close>, two visited groups
  share no name, and a group visited twice is left empty.
\<close>

definition pass_inv :: "string set \<Rightarrow> 'c heap \<Rightarrow> addr list \<Rightarrow> string set \<times> 'c heap \<Rightarrow> bool" where
  "pass_inv seen h xs st = (case st of (seen', h') \<Rightarrow>
     seen \<subseteq> seen' \<and>
     (\<forall>a. cmd_names (h' a) \<subseteq> cmd_names (h a)) \<and>
     (\<forall>a \<in> set xs. cmd_names (h' a) \<subseteq> seen') \<and>
     (\<forall>a \<in> set xs. \<forall>b \<in> set xs. a \<noteq> b \<longrightarrow> cmd_names (h' a) \<inter> cmd_names (h' b) = {}) \<and>
     (\<forall>a. 2 \<le> count_list xs a \<longrightarrow> commands (h' a) = []) \<and>
     (\<forall>a. a \<notin> set xs \<longrightarrow> h' a = h a))"

lemma commands_empty_iff: "commands g = [] \<longleftrightarrow> cmd_names g = {}"
  by (simp add: cmd_names_def)

lemma pass_inv_foldl: "pass_inv seen h xs (foldl dedupe_group (seen, h) xs)"
proof (induction xs rule: rev_induct)
  case Nil
  show ?case by (simp add: pass_inv_def)
next
  case (snoc x xs)
  obtain s1 h1 where st: "foldl dedupe_group (seen, h) xs = (s1, h1)" by (cases "foldl dedupe_group (seen, h) xs")
  from snoc st have inv: "pass_inv seen h xs (s1, h1)" by simp
  have new: "cmd_names ((h1 x)\<lparr>commands := filter (\<lambda>(n, c). n \<notin> s1) (commands (h1 x))\<rparr>) = cmd_names (h1 x) - s1"
    by (rule cmd_names_filter)
  have twice: "commands ((h1 x)\<lparr>commands := filter (\<lambda>(n, c). n \<notin> s1) (commands (h1 x))\<rparr>) = []" if "x \<in> set xs"
  proof -
    from inv that have "cmd_names (h1 x) \<subseteq> s1" by (auto simp: pass_inv_def)
    then have "cmd_names (h1 x) - s1 = {}" by auto
    then show ?thesis using new commands_empty_iff by metis
  qed
  show ?case
    unfolding foldl_append foldl.simps st dedupe_group_simp pass_inv_def prod.case
  proof (intro conjI allI ballI impI)
    show "seen \<subseteq> s1 \<union> cmd_names (h1 x)" using inv by (auto simp: pass_inv_def)
  next
    fix a
    show "cmd_names ((h1(x := (h1 x)\<lparr>commands := filter (\<lambda>(n, c). n \<notin> s1) (commands (h1 x))\<rparr>)) a) \<subseteq> cmd_names (h a)"
      using inv new by (cases "a = x") (auto simp: pass_inv_def)
  next
    fix a assume "a \<in> set (xs @ [x])"
    then show "cmd_names ((h1(x := (h1 x)\<lparr>commands := filter (\<lambda>(n, c). n \<notin> s1) (commands (h1 x))\<rparr>)) a) \<subseteq> s1 \<union> cmd_names (h1 x)"
      using inv new by (cases "a = x") (auto simp: pass_inv_def)
  next
    fix a b assume "a \<in> set (xs @ [x])" "b \<in> set (xs @ [x])" "a \<noteq> b"
    then show "cmd_names ((h1(x := (h1 x)\<lparr>commands := filter (\<lambda>(n, c). n \<notin> s1) (commands (h1 x))\<rparr>)) a) \<inter>
               cmd_names ((h1(x := (h1 x)\<lparr>commands := filter (\<lambda>(n, c). n \<notin> s1) (commands (h1 x))\<rparr>)) b) = {}"
      using inv new by (cases "a = x"; cases "b = x") (auto simp: pass_inv_def)
  next
    fix a assume c: "2 \<le> count_list (xs @ [x]) a"
    show "commands ((h1(x := (h1 x)\<lparr>commands := filter (\<lambda>(n, c). n \<notin> s1) (commands (h1 x))\<rparr>)) a) = []"
    proof (cases "a = x")
      case True
      with c have "1 \<le> count_list xs x" by simp
      then have "x \<in> set xs" by (metis count_list_0_iff not_one_le_zero)
      with True twice show ?thesis by simp
    next
      case False
      with c inv show ?thesis by (auto simp: pass_inv_def)
    qed
  next
    fix a assume "a \<notin> set (xs @ [x])"
    then show "(h1(x := (h1 x)\<lparr>commands := filter (\<lambda>(n, c). n \<notin> s1) (commands (h1 x))\<rparr>)) a = h a"
      using inv by (auto simp: pass_inv_def)
  qed
qed









lemma names_of_simps:
  "names_of h [] = {}" "names_of h (a # as) = cmd_names (h a) \<union> names_of h as"
  "names_of h (xs @ ys) = names_of h xs \<union> names_of h ys"
  by (auto simp: names_of_def)




lemma all_groups_remove_empty:
  "all_groups (remove_empty h colls) = filter (\<lambda>a. commands (h a) \<noteq> []) (all_groups colls)"
  by (simp add: all_groups_def remove_empty_def filter_concat comp_def)





lemma distinct_filter_count:
  "(\<And>x. x \<in> set xs \<Longrightarrow> P x \<Longrightarrow> count_list xs x \<le> 1) \<Longrightarrow> distinct (filter P xs)"
proof (induction xs)
  case Nil
  show ?case by simp
next
  case (Cons y ys)
  have "distinct (filter P ys)"
  proof (rule Cons.IH)
    fix x assume "x \<in> set ys" "P x"
    then show "count_list ys x \<le> 1" using Cons.prems[of x] by (auto split: if_splits)
  qed
  moreover have "y \<notin> set ys" if "P y"
  proof
    assume "y \<in> set ys"
    then have "0 < count_list ys y" by (metis count_list_0_iff gr0I)
    then show False using Cons.prems[of y] that by simp
  qed
  ultimately show ?case by auto
qed


subsection \<open>Lemmas about merging\<close>

lemma first_seen_snoc: "first_seen (xs @ [x]) = (if x \<in> set xs then first_seen xs else first_seen xs @ [x])"
  by (simp add: first_seen_def)

lemma set_first_seen: "set (first_seen xs) = set xs" by (simp add: first_seen_def)
lemma distinct_first_seen: "distinct (first_seen xs)" by (simp add: first_seen_def)

lemma dd_append_map_new:
  "k \<notin> set ks \<Longrightarrow> dd_append k v (map (\<lambda>n. (n, f n)) ks) = map (\<lambda>n. (n, f n)) ks @ [(k, [v])]"
  by (induction ks) auto

lemma dd_append_map_old:
  "k \<in> set ks \<Longrightarrow> distinct ks \<Longrightarrow>
   dd_append k v (map (\<lambda>n. (n, f n)) ks) = map (\<lambda>n. (n, if n = k then f n @ [v] else f n)) ks"
  by (induction ks) (auto simp: dd_append_map_new)

lemma named_groups_foldl:
  "fst (foldl (merge_step h) ([], []) groups) =
     map (\<lambda>n. (n, constituents h groups n)) (first_seen (map (\<lambda>a. name (h a)) groups))"
proof (induction groups rule: rev_induct)
  case Nil
  show ?case by (simp add: first_seen_def)
next
  case (snoc x xs)
  let ?ks = "first_seen (map (\<lambda>a. name (h a)) xs)"
  have fst_step: "fst (merge_step h st x) = dd_append (name (h x)) x (fst st)" for st
    by (cases st) (simp add: merge_step_def)
  show ?case
  proof (cases "name (h x) \<in> set ?ks")
    case True
    then have "name (h x) \<in> (\<lambda>a. name (h a)) ` set xs" by (simp add: set_first_seen)
    then show ?thesis
      using True
      by (simp add: fst_step snoc.IH first_seen_snoc dd_append_map_old distinct_first_seen constituents_def set_first_seen)
  next
    case False
    then have nin: "name (h x) \<notin> (\<lambda>a. name (h a)) ` set xs" by (simp add: set_first_seen)
    then have neq: "\<And>a. a \<in> set xs \<Longrightarrow> name (h a) \<noteq> name (h x)" by (metis imageI)
    then have "constituents h xs (name (h x)) = []" by (simp add: constituents_def filter_empty_conv)
    moreover have "\<And>n. n \<in> set ?ks \<Longrightarrow> n \<noteq> name (h x)" using False by auto
    ultimately show ?thesis
      using False nin
      by (force simp: fst_step snoc.IH first_seen_snoc dd_append_map_new constituents_def set_first_seen)
  qed
qed


lemma dd_get_append:
  "dd_get (dd_append k v dd) n = (if n = k then dd_get dd k @ [v] else dd_get dd n)"
  by (induction dd) (auto simp: dd_get_def)

lemma helps_of_append: "helps_of h (xs @ ys) = helps_of h xs @ helps_of h ys"
  by (simp add: helps_of_def)

lemma helps_foldl:
  "dd_get (snd (foldl (merge_step h) ([], []) groups)) n = helps_of h (constituents h groups n)"
proof (induction groups rule: rev_induct)
  case Nil
  show ?case by (simp add: dd_get_def helps_of_def constituents_def)
next
  case (snoc x xs)
  have snd_step: "snd (merge_step h st x) =
      (case help_text (h x) of None \<Rightarrow> snd st
       | Some t \<Rightarrow> if t \<noteq> [] then dd_append (name (h x)) t (snd st) else snd st)" for st
    by (cases st) (auto simp: merge_step_def truthy_def split: option.splits)
  show ?case
    using snoc.IH
    by (auto simp: snd_step dd_get_append constituents_def helps_of_def split: option.splits)
qed

lemma merge_same_name_collections_eq:
  "merge_same_name_collections h groups =
     map (merged h groups) (first_seen (map (\<lambda>a. name (h a)) groups))"
proof -
  obtain ng hs where st: "foldl (merge_step h) ([], []) groups = (ng, hs)"
    by (cases "foldl (merge_step h) ([], []) groups")
  have ng: "ng = map (\<lambda>n. (n, constituents h groups n)) (first_seen (map (\<lambda>a. name (h a)) groups))"
    using named_groups_foldl[of h groups] st by simp
  have hs: "dd_get hs n = helps_of h (constituents h groups n)" for n
    using helps_foldl[of h groups n] st by simp
  have ne: "constituents h groups n \<noteq> []" if "n \<in> set (first_seen (map (\<lambda>a. name (h a)) groups))" for n
    using that by (auto simp: set_first_seen constituents_def filter_empty_conv)
  have flt: "filter (\<lambda>(group_name, cli_list). cli_list \<noteq> []) ng = ng"
    unfolding ng using ne by (auto simp: filter_id_conv)
  show ?thesis
    unfolding merge_same_name_collections_def st prod.case flt
    unfolding ng by (simp add: merged_def hs comp_def)
qed


subsection \<open>Lemmas about plugin loading\<close>

lemma gather_commands_acc:
  "gather_commands h srcs rv = (case gather_commands h srcs [] of Inl e \<Rightarrow> Inl e | Inr xs \<Rightarrow> Inr (rv @ xs))"
proof (induction srcs arbitrary: rv)
  case Nil
  show ?case by simp
next
  case (Cons s srcs)
  show ?case
  proof (cases s)
    case None
    then show ?thesis by simp
  next
    case (Some src)
    show ?thesis
      unfolding Some gather_commands.simps
      by (subst Cons.IH, subst (2) Cons.IH) (simp split: sum.splits)
  qed
qed

lemma list_commands_resolvable:
  "None \<notin> set srcs \<Longrightarrow> sources r = srcs \<Longrightarrow>
   \<exists>names. list_commands h r = Inr names \<and> (c \<in> set names \<longleftrightarrow> resolvable h srcs c)"
proof -
  assume a: "None \<notin> set srcs" "sources r = srcs"
  have "\<exists>xs. gather_commands h srcs rv = Inr xs" for rv
    using a(1)
  proof (induction srcs arbitrary: rv)
    case Nil show ?case by simp
  next
    case (Cons s srcs)
    then show ?case by (cases s) auto
  qed
  then obtain xs where "gather_commands h srcs [] = Inr xs" by blast
  then show ?thesis using a(2) by (simp add: list_commands_def resolvable_def)
qed

lemma after_loading_Nil: "after_loading w [] = w"
  by (simp add: after_loading_def)

lemma after_loading_Cons:
  "load ep = Returns g \<Longrightarrow>
   after_loading (add_source (Some g) (w\<lparr>loads := loads w @ [ep]\<rparr>)) eps = after_loading w (ep # eps)"
  by (simp add: after_loading_def add_source_def returned_def)

lemma load_all_ok:
  assumes "\<forall>ep \<in> set eps. \<exists>g. load ep = Returns g" and "None \<notin> set (sources (self w))"
  shows "\<exists>k \<le> length eps.
           load_all h c eps w = (Ok (), after_loading w (take k eps)) \<and>
           (\<forall>i < k. \<not> resolvable h (sources (self w) @ map returned (take i eps)) c) \<and>
           (k < length eps \<longrightarrow> resolvable h (sources (self w) @ map returned (take k eps)) c)"
  using assms
proof (induction eps arbitrary: w)
  case Nil
  show ?case by (simp add: after_loading_Nil)
next
  case (Cons ep eps)
  obtain names where names: "list_commands h (self w) = Inr names"
      "c \<in> set names \<longleftrightarrow> resolvable h (sources (self w)) c"
    using list_commands_resolvable[OF Cons.prems(2), of "self w" h c] by auto
  show ?case
  proof (cases "c \<in> set names")
    case True
    then have "load_all h c (ep # eps) w = (Ok (), after_loading w (take 0 (ep # eps)))"
      using names by (simp add: after_loading_Nil)
    moreover have "resolvable h (sources (self w) @ map returned (take 0 (ep # eps))) c"
      using True names by simp
    ultimately show ?thesis by (intro exI[of _ 0]) simp
  next
    case False
    obtain g where g: "load ep = Returns g" using Cons.prems(1) by auto
    let ?w1 = "add_source (Some g) (w\<lparr>loads := loads w @ [ep]\<rparr>)"
    have src1: "sources (self ?w1) = sources (self w) @ [returned ep]"
      by (simp add: add_source_def returned_def g)
    have step: "load_all h c (ep # eps) w = load_all h c eps ?w1"
      using names False g by (simp add: safe_load_entry_point_def)
    have "\<exists>k \<le> length eps.
           load_all h c eps ?w1 = (Ok (), after_loading ?w1 (take k eps)) \<and>
           (\<forall>i < k. \<not> resolvable h (sources (self ?w1) @ map returned (take i eps)) c) \<and>
           (k < length eps \<longrightarrow> resolvable h (sources (self ?w1) @ map returned (take k eps)) c)"
    proof (rule Cons.IH)
      show "\<forall>ep \<in> set eps. \<exists>g. load ep = Returns g" using Cons.prems(1) by simp
      show "None \<notin> set (sources (self ?w1))" using Cons.prems(2) by (simp add: src1 returned_def g)
    qed
    then obtain k where k: "k \<le> length eps"
        "load_all h c eps ?w1 = (Ok (), after_loading ?w1 (take k eps))"
        "\<forall>i < k. \<not> resolvable h (sources (self ?w1) @ map returned (take i eps)) c"
        "k < length eps \<longrightarrow> resolvable h (sources (self ?w1) @ map returned (take k eps)) c"
      by blast
    have a: "load_all h c (ep # eps) w = (Ok (), after_loading w (take (Suc k) (ep # eps)))"
      using step k(2) after_loading_Cons[OF g] by simp
    have b: "\<not> resolvable h (sources (self w) @ map returned (take i (ep # eps))) c" if "i < Suc k" for i
    proof (cases i)
      case 0
      then show ?thesis using False names by simp
    next
      case (Suc j)
      then have "j < k" using that by simp
      then show ?thesis using k(3) Suc by (simp add: src1)
    qed
    have d: "Suc k < length (ep # eps) \<longrightarrow> resolvable h (sources (self w) @ map returned (take (Suc k) (ep # eps))) c"
      using k(4) by (simp add: src1)
    show ?thesis
      using a b d k(1) by (intro exI[of _ "Suc k"]) simp
  qed
qed


lemma partial_match_find:
  "partial_match (map fst lazy) c =
     map_option fst (find (\<lambda>(plugin_name, ep). is_substring c plugin_name) lazy)"
  by (induction lazy) auto

lemma find_in_set:
  "find P xs = Some x \<Longrightarrow> x \<in> set xs"
  by (induction xs) (auto split: if_splits)

lemma find_holds:
  "find P xs = Some x \<Longrightarrow> P x"
  by (induction xs) (auto split: if_splits)

lemma find_map_of:
  "find (\<lambda>(plugin_name, ep). Q plugin_name) lazy = Some (n, ep) \<Longrightarrow> map_of lazy n = Some ep"
proof (induction lazy)
  case Nil
  then show ?case by simp
next
  case (Cons p lazy)
  obtain n0 e0 where p: "p = (n0, e0)" by (cases p)
  have q: "Q n" using find_holds[OF Cons.prems] by simp
  show ?case
  proof (cases "Q n0")
    case True
    then show ?thesis using Cons.prems p by simp
  next
    case False
    then have "n0 \<noteq> n" using q by auto
    then show ?thesis using Cons False p by simp
  qed
qed

lemma load_partial_cases:
  "(partial_handle (lazy_groups (self w)) c = [] \<and> load_partial h c w = (Ok False, w)) \<or>
   (\<exists>ep. ep \<in> set (map snd (lazy_groups (self w))) \<and> partial_handle (lazy_groups (self w)) c = [ep] \<and>
      load_partial h c w =
        (case safe_load_entry_point ep w of
           (Raise e, w1) \<Rightarrow> (Raise e, w1)
         | (Ok loaded_ep, w1) \<Rightarrow>
             let w2 = add_source loaded_ep w1 in
             (case list_commands h (self w2) of
                Inl e \<Rightarrow> (Raise e, w2)
              | Inr names \<Rightarrow> (Ok (c \<in> set names), w2))))"
proof (cases "find (\<lambda>(plugin_name, ep). is_substring c plugin_name) (lazy_groups (self w))")
  case None
  then show ?thesis
    by (simp add: partial_handle_def load_partial_def partial_match_find truthy_def)
next
  case (Some p)
  obtain n ep where p: "p = (n, ep)" by (cases p)
  have m: "map_of (lazy_groups (self w)) n = Some ep"
    using find_map_of[of "is_substring c" "lazy_groups (self w)" n ep] Some p by simp
  have i: "ep \<in> set (map snd (lazy_groups (self w)))"
    using find_in_set[OF Some] p by force
  show ?thesis
  proof (cases "n = []")
    case True
    then show ?thesis using Some p
      by (simp add: partial_handle_def load_partial_def partial_match_find truthy_def)
  next
    case False
    have ph: "partial_handle (lazy_groups (self w)) c = [ep]"
      using False Some p by (simp add: partial_handle_def)
    have lp: "load_partial h c w =
        (case safe_load_entry_point ep w of
           (Raise e, w1) \<Rightarrow> (Raise e, w1)
         | (Ok loaded_ep, w1) \<Rightarrow>
             let w2 = add_source loaded_ep w1 in
             (case list_commands h (self w2) of
                Inl e \<Rightarrow> (Raise e, w2)
              | Inr names \<Rightarrow> (Ok (c \<in> set names), w2)))"
      using False Some p m
      by (simp add: load_partial_def partial_match_find truthy_def Let_def)
    show ?thesis using i ph lp by blast
  qed
qed

lemma lazy_after_loading: "lazy_groups (self (after_loading w eps)) = lazy_groups (self w)"
  by (simp add: after_loading_def)

lemma sources_after_loading:
  "sources (self (after_loading w eps)) = sources (self w) @ map returned eps"
  by (simp add: after_loading_def)

lemma after_loading_append:
  "after_loading (after_loading w xs) ys = after_loading w (xs @ ys)"
  by (simp add: after_loading_def)

lemma returned_not_None: "load ep = Returns g \<Longrightarrow> returned ep \<noteq> None"
  by (simp add: returned_def)

lemma load_plugins_ok:
  assumes ok: "\<forall>ep \<in> set (map snd (lazy_groups (self w))). \<exists>g. load ep = Returns g"
    and nn: "None \<notin> set (sources (self w))"
  shows "\<exists>k \<le> length (lazy_groups (self w)).
           load_plugins h c w =
             (Ok (), after_loading w (partial_handle (lazy_groups (self w)) c @
                                       take k (map snd (lazy_groups (self w))))) \<and>
           (\<forall>i < k. \<not> resolvable h (sources (self w) @ map returned
                (partial_handle (lazy_groups (self w)) c @ take i (map snd (lazy_groups (self w))))) c) \<and>
           (k < length (lazy_groups (self w)) \<longrightarrow>
              resolvable h (sources (self w) @ map returned
                (partial_handle (lazy_groups (self w)) c @ take k (map snd (lazy_groups (self w))))) c)"
proof -
  let ?lazy = "lazy_groups (self w)"
  let ?eps = "map snd ?lazy"
  let ?first = "partial_handle ?lazy c"
  let ?w1 = "after_loading w ?first"
  have first_ok: "\<forall>ep \<in> set ?first. \<exists>g. load ep = Returns g"
    using load_partial_cases[of w c h] ok by auto
  have nn1: "None \<notin> set (sources (self ?w1))"
    using nn first_ok by (auto simp: sources_after_loading returned_def)
  obtain names where names: "list_commands h (self ?w1) = Inr names"
      "c \<in> set names \<longleftrightarrow> resolvable h (sources (self ?w1)) c"
    using list_commands_resolvable[OF nn1, of "self ?w1" h c] by auto
  have part: "load_partial h c w = (Ok (?first \<noteq> [] \<and> resolvable h (sources (self ?w1)) c), ?w1)"
  proof -
    consider (none) "?first = []" "load_partial h c w = (Ok False, w)"
      | (some) ep where "?first = [ep]" "load_partial h c w =
        (case safe_load_entry_point ep w of
           (Raise e, w1) \<Rightarrow> (Raise e, w1)
         | (Ok loaded_ep, w1) \<Rightarrow>
             let w2 = add_source loaded_ep w1 in
             (case list_commands h (self w2) of
                Inl e \<Rightarrow> (Raise e, w2)
              | Inr names \<Rightarrow> (Ok (c \<in> set names), w2)))"
      using load_partial_cases[of w c h] by blast
    then show ?thesis
    proof cases
      case none
      then show ?thesis by (simp add: after_loading_Nil)
    next
      case (some ep)
      then obtain g where g: "load ep = Returns g" using first_ok by auto
      have w1: "add_source (Some g) (w\<lparr>loads := loads w @ [ep]\<rparr>) = ?w1"
        using after_loading_Cons[OF g, of w "[]"] some(1) by (simp add: after_loading_Nil)
      show ?thesis
        unfolding some(2) using g names w1 some(1)
        by (simp add: safe_load_entry_point_def Let_def)
    qed
  qed
  show ?thesis
  proof (cases "?first \<noteq> [] \<and> resolvable h (sources (self ?w1)) c")
    case True
    then have "load_plugins h c w = (Ok (), after_loading w (?first @ take 0 ?eps))"
      using part by (simp add: load_plugins_def)
    moreover have "resolvable h (sources (self w) @ map returned (?first @ take 0 ?eps)) c"
      using True by (simp add: sources_after_loading)
    ultimately show ?thesis by (intro exI[of _ 0]) simp
  next
    case False
    then have eq: "(?first \<noteq> [] \<and> resolvable h (sources (self ?w1)) c) = False" by blast
    have "load_partial h c w = (Ok False, ?w1)" using part unfolding eq .
    then have lp: "load_plugins h c w = load_all h c ?eps ?w1"
      by (simp add: load_plugins_def lazy_after_loading)
    have "\<exists>k \<le> length ?eps.
           load_all h c ?eps ?w1 = (Ok (), after_loading ?w1 (take k ?eps)) \<and>
           (\<forall>i < k. \<not> resolvable h (sources (self ?w1) @ map returned (take i ?eps)) c) \<and>
           (k < length ?eps \<longrightarrow> resolvable h (sources (self ?w1) @ map returned (take k ?eps)) c)"
      by (rule load_all_ok) (use ok nn1 in auto)
    then show ?thesis
      unfolding lp by (simp add: after_loading_append sources_after_loading)
  qed
qed


lemma safe_load_effect:
  "loads (snd (safe_load_entry_point ep w)) = loads w @ [ep] \<and>
   self (snd (safe_load_entry_point ep w)) = self w"
  by (simp add: safe_load_entry_point_def Let_def split: load_outcome.splits)

lemma add_source_effect:
  "loads (add_source x w) = loads w \<and> lazy_groups (self (add_source x w)) = lazy_groups (self w)"
  by (simp add: add_source_def)

lemma load_all_loads:
  "\<exists>k \<le> length eps.
     loads (snd (load_all h c eps w)) = loads w @ take k eps \<and>
     lazy_groups (self (snd (load_all h c eps w))) = lazy_groups (self w)"
proof (induction eps arbitrary: w)
  case Nil
  show ?case by simp
next
  case (Cons ep eps)
  show ?case
  proof (cases "list_commands h (self w)")
    case (Inl e)
    then show ?thesis by (intro exI[of _ 0]) simp
  next
    case (Inr names)
    show ?thesis
    proof (cases "c \<in> set names")
      case True
      then show ?thesis using Inr by (intro exI[of _ 0]) simp
    next
      case False
      obtain r w1 where sl: "safe_load_entry_point ep w = (r, w1)"
        by (cases "safe_load_entry_point ep w")
      have w1: "loads w1 = loads w @ [ep]" "self w1 = self w"
        using safe_load_effect[of ep w] sl by simp_all
      show ?thesis
      proof (cases r)
        case (Raise e)
        then have "load_all h c (ep # eps) w = (Raise e, w1)" using Inr False sl by simp
        then show ?thesis using w1 by (intro exI[of _ 1]) simp
      next
        case (Ok loaded_ep)
        let ?w2 = "add_source loaded_ep w1"
        have step: "load_all h c (ep # eps) w = load_all h c eps ?w2"
          using Inr False sl Ok by simp
        obtain k where k: "k \<le> length eps"
            "loads (snd (load_all h c eps ?w2)) = loads ?w2 @ take k eps"
            "lazy_groups (self (snd (load_all h c eps ?w2))) = lazy_groups (self ?w2)"
          using Cons.IH[of ?w2] by blast
        show ?thesis
          unfolding step using k w1 add_source_effect[of loaded_ep w1]
          by (intro exI[of _ "Suc k"]) simp
      qed
    qed
  qed
qed

lemma load_partial_loads:
  "loads (snd (load_partial h c w)) = loads w @ partial_handle (lazy_groups (self w)) c \<and>
   lazy_groups (self (snd (load_partial h c w))) = lazy_groups (self w)"
proof -
  consider (none) "partial_handle (lazy_groups (self w)) c = []" "load_partial h c w = (Ok False, w)"
    | (some) ep where "partial_handle (lazy_groups (self w)) c = [ep]" "load_partial h c w =
        (case safe_load_entry_point ep w of
           (Raise e, w1) \<Rightarrow> (Raise e, w1)
         | (Ok loaded_ep, w1) \<Rightarrow>
             let w2 = add_source loaded_ep w1 in
             (case list_commands h (self w2) of
                Inl e \<Rightarrow> (Raise e, w2)
              | Inr names \<Rightarrow> (Ok (c \<in> set names), w2)))"
    using load_partial_cases[of w c h] by blast
  then show ?thesis
  proof cases
    case none
    then show ?thesis by simp
  next
    case (some ep)
    obtain r w1 where sl: "safe_load_entry_point ep w = (r, w1)"
      by (cases "safe_load_entry_point ep w")
    have w1: "loads w1 = loads w @ [ep]" "self w1 = self w"
      using safe_load_effect[of ep w] sl by simp_all
    show ?thesis
      unfolding some sl using w1 add_source_effect[of _ w1]
      by (cases r) (auto simp: Let_def split: sum.splits)
  qed
qed

lemma load_plugins_loads:
  "\<exists>k \<le> length (lazy_groups (self w)).
     loads (snd (load_plugins h c w)) =
       loads w @ partial_handle (lazy_groups (self w)) c @ take k (map snd (lazy_groups (self w))) \<and>
     lazy_groups (self (snd (load_plugins h c w))) = lazy_groups (self w)"
proof -
  obtain r w1 where lp: "load_partial h c w = (r, w1)" by (cases "load_partial h c w")
  have w1: "loads w1 = loads w @ partial_handle (lazy_groups (self w)) c"
      "lazy_groups (self w1) = lazy_groups (self w)"
    using load_partial_loads[of h c w] lp by simp_all
  show ?thesis
  proof (cases "r = Ok False")
    case True
    then have eq: "load_plugins h c w = load_all h c (map snd (lazy_groups (self w))) w1"
      using lp w1 by (simp add: load_plugins_def)
    show ?thesis
      unfolding eq using load_all_loads[of "map snd (lazy_groups (self w))" h c w1] w1 by auto
  next
    case False
    then have "snd (load_plugins h c w) = w1"
      using lp by (cases r) (auto simp: load_plugins_def split: bool.splits)
    then show ?thesis using w1 by (intro exI[of _ 0]) simp
  qed
qed

lemma count_list_take: "count_list (take k xs) x \<le> count_list xs x"
proof -
  have "count_list xs x = count_list (take k xs) x + count_list (drop k xs) x"
    by (metis append_take_drop_id count_list_append)
  then show ?thesis by simp
qed

lemma count_list_distinct: "distinct xs \<Longrightarrow> count_list xs x \<le> 1"
  by (induction xs) (auto simp: count_list_0_iff)

lemma partial_handle_short: "length (partial_handle lazy c) \<le> 1"
  by (simp add: partial_handle_def split: option.splits)

lemma count_list_length: "count_list xs x \<le> length xs"
  by (induction xs) auto

lemma count_list_notin: "x \<notin> set xs \<Longrightarrow> count_list xs x = 0"
  by (simp add: count_list_0_iff)


lemma gather_commands_no_None:
  "gather_commands h srcs rv = Inr xs \<Longrightarrow> None \<notin> set srcs"
proof (induction srcs arbitrary: rv)
  case Nil
  show ?case by simp
next
  case (Cons s srcs)
  then show ?case by (cases s) auto
qed

lemma list_commands_no_None:
  assumes "list_commands h r = Inr names"
  shows "None \<notin> set (sources r)"
proof (cases "gather_commands h (sources r) []")
  case (Inl e)
  then show ?thesis using assms by (simp add: list_commands_def)
next
  case (Inr rv)
  then show ?thesis by (rule gather_commands_no_None)
qed

lemma stop_index_exists: "\<exists>k \<le> (n::nat). (\<forall>i < k. \<not> P i) \<and> (k = n \<or> P k)"
proof (induction n)
  case 0
  show ?case by simp
next
  case (Suc n)
  then obtain k where k: "k \<le> n" "\<forall>i < k. \<not> P i" "k = n \<or> P k" by blast
  show ?case
  proof (cases "P k")
    case True
    then show ?thesis using k(1,2) by (intro exI[of _ k]) simp
  next
    case False
    then have kn: "k = n" using k(3) by simp
    have "\<forall>i < Suc n. \<not> P i" using k(2) False kn by (simp add: less_Suc_eq)
    then show ?thesis by (intro exI[of _ "Suc n"]) simp
  qed
qed

lemma load_all_upto:
  assumes "k \<le> length eps"
    and "\<forall>ep \<in> set (take k eps). \<exists>g. load ep = Returns g"
    and "None \<notin> set (sources (self w))"
    and "\<forall>i < k. \<not> resolvable h (sources (self w) @ map returned (take i eps)) c"
    and "k = length eps \<or> resolvable h (sources (self w) @ map returned (take k eps)) c"
  shows "load_all h c eps w = (Ok (), after_loading w (take k eps))"
  using assms
proof (induction eps arbitrary: w k)
  case Nil
  then show ?case by (simp add: after_loading_Nil)
next
  case (Cons ep eps)
  obtain names where names: "list_commands h (self w) = Inr names"
      "c \<in> set names \<longleftrightarrow> resolvable h (sources (self w)) c"
    using list_commands_resolvable[OF Cons.prems(3), of "self w" h c] by auto
  show ?case
  proof (cases k)
    case 0
    then have "resolvable h (sources (self w)) c" using Cons.prems(5) by simp
    then show ?thesis using names 0 by (simp add: after_loading_Nil)
  next
    case (Suc k')
    have nr: "\<not> resolvable h (sources (self w)) c" using Cons.prems(4) Suc by force
    obtain g where g: "load ep = Returns g" using Cons.prems(2) Suc by auto
    let ?w1 = "add_source (Some g) (w\<lparr>loads := loads w @ [ep]\<rparr>)"
    have src1: "sources (self ?w1) = sources (self w) @ [returned ep]"
      by (simp add: add_source_def returned_def g)
    have step: "load_all h c (ep # eps) w = load_all h c eps ?w1"
      using names nr g by (simp add: safe_load_entry_point_def)
    have "load_all h c eps ?w1 = (Ok (), after_loading ?w1 (take k' eps))"
    proof (rule Cons.IH)
      show "k' \<le> length eps" using Cons.prems(1) Suc by simp
      show "\<forall>ep \<in> set (take k' eps). \<exists>g. load ep = Returns g" using Cons.prems(2) Suc by simp
      show "None \<notin> set (sources (self ?w1))" using Cons.prems(3) by (simp add: src1 returned_def g)
      show "\<forall>i < k'. \<not> resolvable h (sources (self ?w1) @ map returned (take i eps)) c"
      proof (intro allI impI)
        fix i assume "i < k'"
        then have "Suc i < k" using Suc by simp
        then have "\<not> resolvable h (sources (self w) @ map returned (take (Suc i) (ep # eps))) c"
          using Cons.prems(4) by blast
        then show "\<not> resolvable h (sources (self ?w1) @ map returned (take i eps)) c"
          by (simp add: src1)
      qed
      show "k' = length eps \<or> resolvable h (sources (self ?w1) @ map returned (take k' eps)) c"
        using Cons.prems(5) Suc by (simp add: src1)
    qed
    then show ?thesis
      using step Suc after_loading_Cons[OF g] by simp
  qed
qed

lemma load_partial_ok:
  assumes "\<forall>ep \<in> set (partial_handle (lazy_groups (self w)) c). \<exists>g. load ep = Returns g"
    and "None \<notin> set (sources (self w))"
  shows "load_partial h c w =
     (Ok (partial_handle (lazy_groups (self w)) c \<noteq> [] \<and>
          resolvable h (sources (self w) @ map returned (partial_handle (lazy_groups (self w)) c)) c),
      after_loading w (partial_handle (lazy_groups (self w)) c))"
proof -
  let ?first = "partial_handle (lazy_groups (self w)) c"
  let ?w1 = "after_loading w ?first"
  have nn1: "None \<notin> set (sources (self ?w1))"
    using assms by (auto simp: sources_after_loading returned_def)
  obtain names where names: "list_commands h (self ?w1) = Inr names"
      "c \<in> set names \<longleftrightarrow> resolvable h (sources (self ?w1)) c"
    using list_commands_resolvable[OF nn1, of "self ?w1" h c] by auto
  consider (none) "?first = []" "load_partial h c w = (Ok False, w)"
    | (some) ep where "?first = [ep]" "load_partial h c w =
      (case safe_load_entry_point ep w of
         (Raise e, w1) \<Rightarrow> (Raise e, w1)
       | (Ok loaded_ep, w1) \<Rightarrow>
           let w2 = add_source loaded_ep w1 in
           (case list_commands h (self w2) of
              Inl e \<Rightarrow> (Raise e, w2)
            | Inr names \<Rightarrow> (Ok (c \<in> set names), w2)))"
    using load_partial_cases[of w c h] by blast
  then show ?thesis
  proof cases
    case none
    then show ?thesis by (simp add: after_loading_Nil)
  next
    case (some ep)
    then obtain g where g: "load ep = Returns g" using assms(1) by auto
    have w1: "add_source (Some g) (w\<lparr>loads := loads w @ [ep]\<rparr>) = ?w1"
      using after_loading_Cons[OF g, of w "[]"] some(1) by (simp add: after_loading_Nil)
    show ?thesis
      unfolding some(2) using g names w1 some(1)
      by (simp add: safe_load_entry_point_def Let_def sources_after_loading)
  qed
qed

lemma load_plugins_upto:
  assumes nn: "None \<notin> set (sources (self w))"
    and k: "k \<le> length (lazy_groups (self w))"
    and ok: "\<forall>ep \<in> set (partial_handle (lazy_groups (self w)) c @
                         take k (map snd (lazy_groups (self w)))). \<exists>g. load ep = Returns g"
    and before: "\<forall>i < k. \<not> resolvable h (sources (self w) @ map returned
          (partial_handle (lazy_groups (self w)) c @ take i (map snd (lazy_groups (self w))))) c"
    and at: "k = length (lazy_groups (self w)) \<or>
          resolvable h (sources (self w) @ map returned
            (partial_handle (lazy_groups (self w)) c @ take k (map snd (lazy_groups (self w))))) c"
  shows "load_plugins h c w =
           (Ok (), after_loading w (partial_handle (lazy_groups (self w)) c @
                                     take k (map snd (lazy_groups (self w)))))"
proof -
  let ?eps = "map snd (lazy_groups (self w))"
  let ?first = "partial_handle (lazy_groups (self w)) c"
  let ?w1 = "after_loading w ?first"
  have first_ok: "\<forall>ep \<in> set ?first. \<exists>g. load ep = Returns g" using ok by auto
  note part = load_partial_ok[OF first_ok nn, of h]
  have nn1: "None \<notin> set (sources (self ?w1))"
    using nn first_ok by (auto simp: sources_after_loading returned_def)
  show ?thesis
  proof (cases "?first \<noteq> [] \<and> resolvable h (sources (self w) @ map returned ?first) c")
    case True
    have "k = 0"
    proof (rule ccontr)
      assume "k \<noteq> 0"
      then have "0 < k" by simp
      then have "\<not> resolvable h (sources (self w) @ map returned (?first @ take 0 ?eps)) c"
        using before by blast
      then show False using True by simp
    qed
    moreover have "load_plugins h c w = (Ok (), ?w1)"
      using part True by (simp add: load_plugins_def)
    ultimately show ?thesis by simp
  next
    case False
    then have eq: "(?first \<noteq> [] \<and> resolvable h (sources (self w) @ map returned ?first) c) = False"
      by blast
    have "load_partial h c w = (Ok False, ?w1)" using part unfolding eq .
    then have lp: "load_plugins h c w = load_all h c ?eps ?w1"
      by (simp add: load_plugins_def lazy_after_loading)
    have "load_all h c ?eps ?w1 = (Ok (), after_loading ?w1 (take k ?eps))"
    proof (rule load_all_upto)
      show "k \<le> length ?eps" using k by simp
      show "\<forall>ep \<in> set (take k ?eps). \<exists>g. load ep = Returns g" using ok by auto
      show "None \<notin> set (sources (self ?w1))" by (rule nn1)
      show "\<forall>i < k. \<not> resolvable h (sources (self ?w1) @ map returned (take i ?eps)) c"
        using before by (simp add: sources_after_loading)
      show "k = length ?eps \<or> resolvable h (sources (self ?w1) @ map returned (take k ?eps)) c"
        using at by (simp add: sources_after_loading)
    qed
    then show ?thesis unfolding lp by (simp add: after_loading_append)
  qed
qed


subsection \<open>Lemmas about the suggester and the config file\<close>

lemma get_close_matches_default:
  "get_close_matches word possibilities MAX_SUGGESTIONS CUTOFF =
     Inr (map snd (nlargest 3 (map (\<lambda>x. (ratio x word, x))
        (filter (\<lambda>x. 1 / 2 \<le> real_quick_ratio x word \<and> 1 / 2 \<le> quick_ratio x word \<and>
                      1 / 2 \<le> ratio x word) possibilities))))"
  by (simp add: get_close_matches_def MAX_SUGGESTIONS_def CUTOFF_def)

lemma set_nlargest: "set (nlargest n xs) \<subseteq> set xs"
  using set_take_subset[of n "rev (sort xs)"] by (simp add: nlargest_def)

lemma length_nlargest: "length (nlargest n xs) \<le> n"
  by (simp add: nlargest_def)

lemma sorted_rev_nlargest: "sorted (rev (nlargest n xs))"
  by (simp add: nlargest_def rev_take sorted_wrt_drop)

lemma map_score_snd:
  "set ps \<subseteq> (\<lambda>x. (f x, x)) ` A \<Longrightarrow> map (\<lambda>m. (f m, m)) (map snd ps) = ps"
  by (induction ps) auto

lemma close_matches_props:
  "get_close_matches word possibilities MAX_SUGGESTIONS CUTOFF = Inr (close_matches word possibilities) \<and>
   length (close_matches word possibilities) \<le> 3 \<and>
   set (close_matches word possibilities) \<subseteq> set possibilities \<and>
   (\<forall>m \<in> set (close_matches word possibilities). 1 / 2 \<le> ratio m word) \<and>
   sorted (rev (map (\<lambda>m. (ratio m word, m)) (close_matches word possibilities)))"
proof -
  let ?cands = "filter (\<lambda>x. 1 / 2 \<le> real_quick_ratio x word \<and> 1 / 2 \<le> quick_ratio x word \<and>
                      1 / 2 \<le> ratio x word) possibilities"
  let ?result = "map (\<lambda>x. (ratio x word, x)) ?cands"
  let ?top = "nlargest 3 ?result"
  have cm: "close_matches word possibilities = map snd ?top"
    by (simp add: close_matches_def get_close_matches_default)
  have sub: "set ?top \<subseteq> (\<lambda>x. (ratio x word, x)) ` set ?cands"
    using set_nlargest[of 3 ?result] by simp
  have undo: "map (\<lambda>m. (ratio m word, m)) (map snd ?top) = ?top"
    by (rule map_score_snd[OF sub])
  have in_cands: "set (map snd ?top) \<subseteq> set ?cands"
    using sub by auto
  show ?thesis
    unfolding cm undo
    using in_cands length_nlargest[of 3 ?result] sorted_rev_nlargest[of 3 ?result]
    by (auto simp: get_close_matches_default)
qed


lemma suggest_cli_command_eq:
  "suggest_cli_command word possibilities =
     (let matches = close_matches word possibilities in
      if matches = [] then Inr []
      else Inr ((if length matches = 1 then ''\<newline>\<newline>Did you mean this?''
                 else ''\<newline>\<newline>Did you mean one of these?\<newline>'') @
                indent (join ''\<newline>'' matches) (replicate 4 CHR '' '')))"
  using close_matches_props[of word possibilities]
  by (simp add: suggest_cli_command_def Let_def)







lemma clean_name_not_Nil: "clean_name m \<Longrightarrow> m \<noteq> []"
  by (auto simp: clean_name_def)






lemma suggest_cli_command_returns: "\<exists>message. suggest_cli_command key names = Inr message"
  by (simp add: suggest_cli_command_eq Let_def)

lemma validate_config_file_bad:
  assumes "''config'' \<in> set run_params" and "key \<notin> set (remove1 ''config'' run_params)"
  shows "\<exists>message. suggest_cli_command key (remove1 ''config'' run_params) = Inr message \<and>
           validate_config_file run_params key =
             Inl (KedroCliError (''Key `'' @ key @ ''` in provided configuration is not valid. '' @ message))"
proof -
  obtain message where "suggest_cli_command key (remove1 ''config'' run_params) = Inr message"
    using suggest_cli_command_returns by blast
  then show ?thesis using assms by (simp add: validate_config_file_def Let_def)
qed

lemma validate_config_file_good:
  "''config'' \<in> set run_params \<Longrightarrow> key \<in> set (remove1 ''config'' run_params) \<Longrightarrow>
   validate_config_file run_params key = Inr ()"
  by (simp add: validate_config_file_def Let_def)

lemma validate_items_bad:
  assumes "''config'' \<in> set run_params"
    and "find (\<lambda>key. key \<notin> set (remove1 ''config'' run_params)) (map fst config) = Some key"
    and "validate_config_file run_params key = Inl e"
  shows "validate_items run_params config value = Inl e"
  using assms(2)
proof (induction config arbitrary: "value")
  case Nil
  then show ?case by simp
next
  case (Cons p config)
  obtain k v where p: "p = (k, v)" by (cases p)
  show ?case
  proof (cases "k \<in> set (remove1 ''config'' run_params)")
    case True
    then show ?thesis
      using Cons p validate_config_file_good[OF assms(1) True] by simp
  next
    case False
    then have "key = k" using Cons.prems p by simp
    then show ?thesis
      using assms(3) p by simp
  qed
qed

lemma validate_items_good:
  assumes "''config'' \<in> set run_params"
    and "\<forall>key \<in> set (map fst config). key \<in> set (remove1 ''config'' run_params)"
  shows "\<exists>r. validate_items run_params config value = Inr r"
  using assms(2)
proof (induction config arbitrary: "value")
  case Nil
  then show ?case by simp
next
  case (Cons p config)
  obtain k v where p: "p = (k, v)" by (cases p)
  then have "validate_config_file run_params k = Inr ()"
    using Cons.prems validate_config_file_good[OF assms(1)] by simp
  then show ?case using Cons p by simp
qed


section \<open>Properties\<close>




text \<open>
  C4, as the code has it: \<open>_merge_same_name_collections\<close> returns one collection for each
  distinct group name, in the order in which the names are first seen.  The collection lists
  the groups of that name in their given order as its sources, so its command names are the
  union of theirs, and click's lookup, which asks the sources first to last, finds the command
  of the earliest constituent that has the name.  Its help joins the non-empty helps of the
  constituents, in order, with a blank line between them; its callback and parameters are
  those of the first constituent.
\<close>

theorem merge_same_name_collections_by_name:
  "merge_same_name_collections h groups =
     map (merged h groups) (first_seen (map (\<lambda>a. name (h a)) groups)) \<and>
   distinct (map name (merge_same_name_collections h groups)) \<and>
   (\<forall>n. sources (merged h groups n) = filter (\<lambda>a. name (h a) = n) groups) \<and>
   (\<forall>n. help_text (merged h groups n) =
        Some (join ''\<newline>\<newline>'' (helps_of h (filter (\<lambda>a. name (h a) = n) groups)))) \<and>
   (\<forall>n. callback (merged h groups n) = callback (h (hd (filter (\<lambda>a. name (h a) = n) groups))) \<and>
        params (merged h groups n) = params (h (hd (filter (\<lambda>a. name (h a) = n) groups)))) \<and>
   (\<forall>n. collection_names h (merged h groups n) = names_of h (filter (\<lambda>a. name (h a) = n) groups)) \<and>
   (\<forall>n cmd_name. collection_get_command h (merged h groups n) cmd_name =
        first_some (\<lambda>a. group_get_command (h a) cmd_name) (filter (\<lambda>a. name (h a) = n) groups))"
proof -
  have eq: "merge_same_name_collections h groups =
      map (merged h groups) (first_seen (map (\<lambda>a. name (h a)) groups))"
    by (rule merge_same_name_collections_eq)
  have "map name (map (merged h groups) ks) = ks" for ks
    by (induction ks) (simp_all add: merged_def)
  then have "distinct (map name (merge_same_name_collections h groups))"
    unfolding eq by (simp add: distinct_first_seen)
  then show ?thesis
    using eq by (simp add: merged_def constituents_def collection_names_def collection_get_command_def)
qed

text \<open>
  The claim as it is written fails for two groups named \<open>project\<close> with the helps \<open>H1\<close> and
  \<open>H2\<close> that both have a command \<open>x\<close>: the merged help has a blank line between the two
  helps, and \<open>x\<close> is looked up in the first group, not the second.
\<close>

theorem merge_same_name_collections_counterexample:
  "map help_text (merge_same_name_collections example_merge_heap [0, 1]) =
     [Some ''H1\<newline>\<newline>H2''] \<and>
   map help_text (merge_same_name_collections example_merge_heap [0, 1]) \<noteq>
     [Some ''H1\<newline>H2''] \<and>
   map (\<lambda>c. collection_get_command example_merge_heap c ''x'')
     (merge_same_name_collections example_merge_heap [0, 1]) = [Some 1] \<and>
   map (\<lambda>c. collection_get_command example_merge_heap c ''x'')
     (merge_same_name_collections example_merge_heap [0, 1]) \<noteq>
     [group_get_command (example_merge_heap 1) ''x'']"
  by (simp add: merge_same_name_collections_def merge_step_def truthy_def dd_get_def
      collection_get_command_def group_get_command_def example_merge_heap_def)

text \<open>
  C5: after \<open>_dedupe_commands\<close> the surviving groups are pairwise different objects, no two
  of them share a command name, none of them is empty, and every source lists, in their
  original order, exactly those of its groups whose \<open>commands\<close> did not become empty.
\<close>

theorem dedupe_no_name_twice:
  assumes "dedupe_commands colls h = (colls', h')"
  shows "distinct (all_groups colls') \<and>
         (\<forall>a \<in> set (all_groups colls'). \<forall>b \<in> set (all_groups colls').
             a \<noteq> b \<longrightarrow> cmd_names (h' a) \<inter> cmd_names (h' b) = {}) \<and>
         (\<forall>a \<in> set (all_groups colls'). commands (h' a) \<noteq> []) \<and>
         map sources colls' = map (\<lambda>coll. filter (\<lambda>a. commands (h' a) \<noteq> []) (sources coll)) colls"
proof -
  let ?xs = "rev (all_groups colls)"
  have h': "h' = snd (foldl dedupe_group ({}, h) ?xs)"
    and colls': "colls' = remove_empty h' colls"
    using assms by (auto simp: dedupe_commands_def Let_def dedupe_pass_flat)
  obtain s where st: "foldl dedupe_group ({}, h) ?xs = (s, h')"
    using h' by (cases "foldl dedupe_group ({}, h) ?xs") simp
  have inv: "pass_inv {} h ?xs (s, h')" using pass_inv_foldl[of "{}" h ?xs] st by simp
  have gs: "all_groups colls' = filter (\<lambda>a. commands (h' a) \<noteq> []) (all_groups colls)"
    unfolding colls' by (rule all_groups_remove_empty)
  have twice: "commands (h' a) = []" if "2 \<le> count_list (all_groups colls) a" for a
    using inv that by (simp add: pass_inv_def)
  have d: "distinct (all_groups colls')"
    unfolding gs
  proof (rule distinct_filter_count)
    fix x assume "commands (h' x) \<noteq> []"
    then show "count_list (all_groups colls) x \<le> 1" using twice[of x] by (cases "count_list (all_groups colls) x \<le> 1") auto
  qed
  have disj: "cmd_names (h' a) \<inter> cmd_names (h' b) = {}"
    if "a \<in> set (all_groups colls')" "b \<in> set (all_groups colls')" "a \<noteq> b" for a b
  proof -
    from that have "a \<in> set ?xs" "b \<in> set ?xs" by (auto simp: gs)
    with inv that(3) show ?thesis unfolding pass_inv_def by blast
  qed
  have ne: "commands (h' a) \<noteq> []" if "a \<in> set (all_groups colls')" for a
    using that by (simp add: gs)
  have src: "map sources colls' = map (\<lambda>coll. filter (\<lambda>a. commands (h' a) \<noteq> []) (sources coll)) colls"
    by (simp add: colls' remove_empty_def comp_def)
  show ?thesis using d disj ne src by blast
qed

theorem dedupe_no_name_twice_witness:
  "all_groups (fst (dedupe_commands [example_A, example_B] example_heap)) = [0, 2] \<and>
   cmd_names (snd (dedupe_commands [example_A, example_B] example_heap) 0) \<inter>
     cmd_names (snd (dedupe_commands [example_A, example_B] example_heap) 2) = {} \<and>
   commands (snd (dedupe_commands [example_A, example_B] example_heap) 2) \<noteq> []"
proof -
  let ?D = "dedupe_commands [example_A, example_B] example_heap"
  have run: "?D = (fst ?D, snd ?D)" by simp
  note t = dedupe_no_name_twice [OF run]
  have gs: "all_groups (fst ?D) = [0, 2]"
    by code_simp
  from t gs have "cmd_names (snd ?D 0) \<inter> cmd_names (snd ?D 2) = {}" by simp
  moreover from t gs have "commands (snd ?D 2) \<noteq> []" by simp
  ultimately show ?thesis using gs by simp
qed



text \<open>
  C2, as the code has it: when the first argument is among the listed commands, nothing is
  loaded.  When it is not, \<open>main\<close> first loads the entry point of the first plugin name that
  contains the typed command, if there is one and the name is not empty, and appends what it
  returns to the sources; if the command is listed then, nothing else is loaded.  Otherwise
  it walks through all lazy entry points in their order, the one of the first phase
  included, and loads them one at a time until the command is listed.  So with \<open>k\<close> the
  number of entry points after which the loop stops (the command is not listed before any of
  the \<open>k\<close> loads, and it is listed after the \<open>k\<close>-th or no entry point is left), and with
  the entry points that are loaded on the way loading successfully, exactly the entry point
  of the first phase and the first \<open>k\<close> of all entry points are loaded, in this order; the
  entry points after them are not touched and need not be loadable.  Such a \<open>k\<close> always
  exists.
\<close>

theorem main_loads_in_two_phases:
  assumes "list_commands h (self w) = Inr names"
  shows "(c \<in> set names \<longrightarrow>
            main h super_main (Some (c # rest)) w = super_main w (Some (c # rest))) \<and>
         (c \<notin> set names \<longrightarrow>
            (\<forall>k \<le> length (lazy_groups (self w)).
               (\<forall>ep \<in> set (partial_handle (lazy_groups (self w)) c @
                              take k (map snd (lazy_groups (self w)))). \<exists>g. load ep = Returns g) \<and>
               (\<forall>i < k. \<not> resolvable h (sources (self w) @ map returned
                    (partial_handle (lazy_groups (self w)) c @
                     take i (map snd (lazy_groups (self w))))) c) \<and>
               (k = length (lazy_groups (self w)) \<or>
                  resolvable h (sources (self w) @ map returned
                    (partial_handle (lazy_groups (self w)) c @
                     take k (map snd (lazy_groups (self w))))) c) \<longrightarrow>
               main h super_main (Some (c # rest)) w =
                 super_main
                   (after_loading w (partial_handle (lazy_groups (self w)) c @
                                     take k (map snd (lazy_groups (self w)))))
                   (Some (c # rest)))) \<and>
         (\<exists>k \<le> length (lazy_groups (self w)).
            (\<forall>i < k. \<not> resolvable h (sources (self w) @ map returned
                 (partial_handle (lazy_groups (self w)) c @
                  take i (map snd (lazy_groups (self w))))) c) \<and>
            (k = length (lazy_groups (self w)) \<or>
               resolvable h (sources (self w) @ map returned
                 (partial_handle (lazy_groups (self w)) c @
                  take k (map snd (lazy_groups (self w))))) c))"
proof (intro conjI impI allI)
  assume "c \<in> set names"
  then show "main h super_main (Some (c # rest)) w = super_main w (Some (c # rest))"
    using assms by (simp add: main_def)
next
  fix k
  assume c: "c \<notin> set names" and k: "k \<le> length (lazy_groups (self w))"
    and cond: "(\<forall>ep \<in> set (partial_handle (lazy_groups (self w)) c @
                              take k (map snd (lazy_groups (self w)))). \<exists>g. load ep = Returns g) \<and>
               (\<forall>i < k. \<not> resolvable h (sources (self w) @ map returned
                    (partial_handle (lazy_groups (self w)) c @
                     take i (map snd (lazy_groups (self w))))) c) \<and>
               (k = length (lazy_groups (self w)) \<or>
                  resolvable h (sources (self w) @ map returned
                    (partial_handle (lazy_groups (self w)) c @
                     take k (map snd (lazy_groups (self w))))) c)"
  have nn: "None \<notin> set (sources (self w))" using assms by (rule list_commands_no_None)
  have "load_plugins h c w =
      (Ok (), after_loading w (partial_handle (lazy_groups (self w)) c @
                                take k (map snd (lazy_groups (self w)))))"
    by (rule load_plugins_upto[OF nn k cond[THEN conjunct1] cond[THEN conjunct2, THEN conjunct1]
          cond[THEN conjunct2, THEN conjunct2]])
  then show "main h super_main (Some (c # rest)) w =
      super_main (after_loading w (partial_handle (lazy_groups (self w)) c @
                                   take k (map snd (lazy_groups (self w)))))
        (Some (c # rest))"
    using assms c by (simp add: main_def)
next
  show "\<exists>k \<le> length (lazy_groups (self w)).
            (\<forall>i < k. \<not> resolvable h (sources (self w) @ map returned
                 (partial_handle (lazy_groups (self w)) c @
                  take i (map snd (lazy_groups (self w))))) c) \<and>
            (k = length (lazy_groups (self w)) \<or>
               resolvable h (sources (self w) @ map returned
                 (partial_handle (lazy_groups (self w)) c @
                  take k (map snd (lazy_groups (self w))))) c)"
    by (rule stop_index_exists)
qed

theorem main_loads_in_two_phases_witness:
  "list_commands example_heap (self (example_world lazy_broken)) = Inr [''new'', ''run''] \<and>
   ''docker'' \<notin> set [''new'', ''run''] \<and>
   partial_handle (lazy_groups (self (example_world lazy_broken))) ''docker'' = [ep_docker] \<and>
   load ep_docker = Returns (example_group ''docker'' [(''docker'', 2), (''docker-build'', 3)]) \<and>
   resolvable example_heap
     (sources (self (example_world lazy_broken)) @ map returned [ep_docker]) ''docker'' \<and>
   main example_heap no_dispatch (Some [''docker'']) (example_world lazy_broken) =
     no_dispatch (after_loading (example_world lazy_broken) [ep_docker]) (Some [''docker''])"
proof -
  let ?w = "example_world lazy_broken"
  have l: "list_commands example_heap (self ?w) = Inr [''new'', ''run'']"
    by code_simp
  have n: "''docker'' \<notin> set [''new'', ''run'']" by simp
  have first: "partial_handle (lazy_groups (self ?w)) ''docker'' = [ep_docker]"
    by (simp add: partial_handle_def world_defs)
  have ld: "load ep_docker = Returns (example_group ''docker'' [(''docker'', 2), (''docker-build'', 3)])"
    by (simp add: ep_docker_def)
  have found: "resolvable example_heap (sources (self ?w) @ map returned [ep_docker]) ''docker''"
    by code_simp
  have k: "(0::nat) \<le> length (lazy_groups (self ?w))" by simp
  have cond: "(\<forall>ep \<in> set (partial_handle (lazy_groups (self ?w)) ''docker'' @
                              take 0 (map snd (lazy_groups (self ?w)))). \<exists>g. load ep = Returns g) \<and>
               (\<forall>i < 0. \<not> resolvable example_heap (sources (self ?w) @ map returned
                    (partial_handle (lazy_groups (self ?w)) ''docker'' @
                     take i (map snd (lazy_groups (self ?w))))) ''docker'') \<and>
               (0 = length (lazy_groups (self ?w)) \<or>
                  resolvable example_heap (sources (self ?w) @ map returned
                    (partial_handle (lazy_groups (self ?w)) ''docker'' @
                     take 0 (map snd (lazy_groups (self ?w))))) ''docker'')"
    using first ld found by simp
  note t = main_loads_in_two_phases[OF l, of "''docker''" no_dispatch "[]"]
  have "main example_heap no_dispatch (Some [''docker'']) ?w =
      no_dispatch (after_loading ?w (partial_handle (lazy_groups (self ?w)) ''docker'' @
                     take 0 (map snd (lazy_groups (self ?w))))) (Some [''docker''])"
    by (rule t[THEN conjunct2, THEN conjunct1, THEN mp, OF n, THEN spec, THEN mp, OF k,
          THEN mp, OF cond])
  then have "main example_heap no_dispatch (Some [''docker'']) ?w =
      no_dispatch (after_loading ?w [ep_docker]) (Some [''docker''])"
    using first by simp
  with l n first ld found show ?thesis by (intro conjI)
qed

text \<open>
  The claim as it is written fails for the typed name \<open>dock\<close>: the plugin \<open>kedro-docker\<close>
  is loaded in the first phase, has no command \<open>dock\<close>, and is loaded once more by the loop
  over all entry points, which does not leave it out.
\<close>

theorem main_loads_in_two_phases_counterexample:
  "loads (snd (main example_heap no_dispatch (Some [''dock'']) (example_world lazy_ok))) =
     [ep_docker, ep_viz, ep_docker] \<and>
   loads (snd (main example_heap no_dispatch (Some [''dock'']) (example_world lazy_ok))) \<noteq>
     [ep_docker, ep_viz]"
proof -
  have "loads (snd (main example_heap no_dispatch (Some [''dock'']) (example_world lazy_ok))) =
     [ep_docker, ep_viz, ep_docker]"
    by code_simp
  then show ?thesis by simp
qed

text \<open>
  C3, as the code has it: nothing records that an entry point has been loaded, and
  \<open>lazy_groups\<close> is the same after \<open>_load_plugins\<close>.  The entry points that one call
  hands to the loader are the entry point of the first phase, if there is one, followed by
  the first \<open>k\<close> of all entry points, for some \<open>k\<close>; when the loaded entry points load
  successfully, \<open>k\<close> is the number of entry points after which the command is listed, or
  all of them, and an entry point of the first phase that is among these \<open>k\<close> is handed to
  the loader a second time.  When the entry points are pairwise different, none is handed
  over more than twice, and none but the one of the first phase more than once.
\<close>

theorem load_plugins_loads_partial_then_prefix:
  "(\<exists>k \<le> length (lazy_groups (self w)).
      loads (snd (load_plugins h c w)) =
        loads w @ partial_handle (lazy_groups (self w)) c @ take k (map snd (lazy_groups (self w)))) \<and>
   lazy_groups (self (snd (load_plugins h c w))) = lazy_groups (self w) \<and>
   (None \<notin> set (sources (self w)) \<longrightarrow>
      (\<forall>k \<le> length (lazy_groups (self w)).
         (\<forall>ep \<in> set (partial_handle (lazy_groups (self w)) c @
                        take k (map snd (lazy_groups (self w)))). \<exists>g. load ep = Returns g) \<and>
         (\<forall>i < k. \<not> resolvable h (sources (self w) @ map returned
              (partial_handle (lazy_groups (self w)) c @
               take i (map snd (lazy_groups (self w))))) c) \<and>
         (k = length (lazy_groups (self w)) \<or>
            resolvable h (sources (self w) @ map returned
              (partial_handle (lazy_groups (self w)) c @
               take k (map snd (lazy_groups (self w))))) c) \<longrightarrow>
         loads (snd (load_plugins h c w)) =
           loads w @ partial_handle (lazy_groups (self w)) c @
             take k (map snd (lazy_groups (self w))) \<and>
         (\<forall>ep. ep \<in> set (partial_handle (lazy_groups (self w)) c) \<and>
               ep \<in> set (take k (map snd (lazy_groups (self w)))) \<longrightarrow>
               2 \<le> count_list (partial_handle (lazy_groups (self w)) c @
                                 take k (map snd (lazy_groups (self w)))) ep))) \<and>
   (distinct (map snd (lazy_groups (self w))) \<longrightarrow>
      (\<forall>k ep. count_list (partial_handle (lazy_groups (self w)) c @
                           take k (map snd (lazy_groups (self w)))) ep \<le> 2 \<and>
              (ep \<notin> set (partial_handle (lazy_groups (self w)) c) \<longrightarrow>
                 count_list (partial_handle (lazy_groups (self w)) c @
                             take k (map snd (lazy_groups (self w)))) ep \<le> 1)))"
proof -
  let ?first = "partial_handle (lazy_groups (self w)) c"
  let ?eps = "map snd (lazy_groups (self w))"
  have shape: "\<exists>k \<le> length (lazy_groups (self w)).
      loads (snd (load_plugins h c w)) = loads w @ ?first @ take k ?eps"
    and lazy: "lazy_groups (self (snd (load_plugins h c w))) = lazy_groups (self w)"
    using load_plugins_loads[of w h c] by blast+
  have exact: "loads (snd (load_plugins h c w)) = loads w @ ?first @ take k ?eps \<and>
         (\<forall>ep. ep \<in> set ?first \<and> ep \<in> set (take k ?eps) \<longrightarrow>
               2 \<le> count_list (?first @ take k ?eps) ep)"
    if nn: "None \<notin> set (sources (self w))" and k: "k \<le> length (lazy_groups (self w))"
      and cond: "(\<forall>ep \<in> set (?first @ take k ?eps). \<exists>g. load ep = Returns g) \<and>
         (\<forall>i < k. \<not> resolvable h (sources (self w) @ map returned (?first @ take i ?eps)) c) \<and>
         (k = length (lazy_groups (self w)) \<or>
            resolvable h (sources (self w) @ map returned (?first @ take k ?eps)) c)"
    for k
  proof -
    have "load_plugins h c w = (Ok (), after_loading w (?first @ take k ?eps))"
      by (rule load_plugins_upto[OF nn k cond[THEN conjunct1] cond[THEN conjunct2, THEN conjunct1]
            cond[THEN conjunct2, THEN conjunct2]])
    then have a: "loads (snd (load_plugins h c w)) = loads w @ ?first @ take k ?eps"
      by (simp add: after_loading_def)
    have "2 \<le> count_list (?first @ take k ?eps) ep"
      if "ep \<in> set ?first" "ep \<in> set (take k ?eps)" for ep
    proof -
      have "0 < count_list ?first ep" "0 < count_list (take k ?eps) ep"
        using that by (metis count_list_0_iff gr0I)+
      then show ?thesis by simp
    qed
    then have "\<forall>ep. ep \<in> set ?first \<and> ep \<in> set (take k ?eps) \<longrightarrow>
               2 \<le> count_list (?first @ take k ?eps) ep" by simp
    with a show ?thesis by (rule conjI)
  qed
  have bound: "count_list (?first @ take k ?eps) ep \<le> 2 \<and>
              (ep \<notin> set ?first \<longrightarrow> count_list (?first @ take k ?eps) ep \<le> 1)"
    if d: "distinct ?eps" for k ep
  proof -
    have a: "count_list (take k ?eps) ep \<le> 1"
      using count_list_take[of k ?eps ep] count_list_distinct[OF d, of ep] by simp
    have b: "count_list ?first ep \<le> 1"
      using count_list_length[of ?first ep] partial_handle_short[of "lazy_groups (self w)" c] by simp
    have "count_list (?first @ take k ?eps) ep \<le> 2" using a b by simp
    moreover have "count_list (?first @ take k ?eps) ep \<le> 1" if "ep \<notin> set ?first"
      using a count_list_notin[OF that] by simp
    ultimately show ?thesis by simp
  qed
  show ?thesis
  proof (intro conjI)
    show "\<exists>k \<le> length (lazy_groups (self w)).
      loads (snd (load_plugins h c w)) = loads w @ ?first @ take k ?eps"
      by (rule shape)
    show "lazy_groups (self (snd (load_plugins h c w))) = lazy_groups (self w)"
      by (rule lazy)
    show "None \<notin> set (sources (self w)) \<longrightarrow>
      (\<forall>k \<le> length (lazy_groups (self w)).
         (\<forall>ep \<in> set (?first @ take k ?eps). \<exists>g. load ep = Returns g) \<and>
         (\<forall>i < k. \<not> resolvable h (sources (self w) @ map returned (?first @ take i ?eps)) c) \<and>
         (k = length (lazy_groups (self w)) \<or>
            resolvable h (sources (self w) @ map returned (?first @ take k ?eps)) c) \<longrightarrow>
         loads (snd (load_plugins h c w)) = loads w @ ?first @ take k ?eps \<and>
         (\<forall>ep. ep \<in> set ?first \<and> ep \<in> set (take k ?eps) \<longrightarrow>
               2 \<le> count_list (?first @ take k ?eps) ep))"
    proof (intro impI allI)
      fix k
      assume "None \<notin> set (sources (self w))" "k \<le> length (lazy_groups (self w))"
        "(\<forall>ep \<in> set (?first @ take k ?eps). \<exists>g. load ep = Returns g) \<and>
         (\<forall>i < k. \<not> resolvable h (sources (self w) @ map returned (?first @ take i ?eps)) c) \<and>
         (k = length (lazy_groups (self w)) \<or>
            resolvable h (sources (self w) @ map returned (?first @ take k ?eps)) c)"
      then show "loads (snd (load_plugins h c w)) = loads w @ ?first @ take k ?eps \<and>
         (\<forall>ep. ep \<in> set ?first \<and> ep \<in> set (take k ?eps) \<longrightarrow>
               2 \<le> count_list (?first @ take k ?eps) ep)"
        by (rule exact)
    qed
    show "distinct ?eps \<longrightarrow>
      (\<forall>k ep. count_list (?first @ take k ?eps) ep \<le> 2 \<and>
              (ep \<notin> set ?first \<longrightarrow> count_list (?first @ take k ?eps) ep \<le> 1))"
    proof (intro impI allI)
      fix k ep assume "distinct ?eps"
      then show "count_list (?first @ take k ?eps) ep \<le> 2 \<and>
              (ep \<notin> set ?first \<longrightarrow> count_list (?first @ take k ?eps) ep \<le> 1)"
        by (rule bound)
    qed
  qed
qed

theorem load_plugins_loads_partial_then_prefix_witness:
  "None \<notin> set (sources (self (example_world lazy_ok))) \<and>
   partial_handle (lazy_groups (self (example_world lazy_ok))) ''dock'' = [ep_docker] \<and>
   load ep_viz = Returns (example_group ''viz'' [(''viz'', 1)]) \<and>
   load ep_docker = Returns (example_group ''docker'' [(''docker'', 2), (''docker-build'', 3)]) \<and>
   \<not> resolvable example_heap
       (sources (self (example_world lazy_ok)) @ map returned [ep_docker]) ''dock'' \<and>
   \<not> resolvable example_heap
       (sources (self (example_world lazy_ok)) @ map returned [ep_docker, ep_viz]) ''dock'' \<and>
   loads (snd (load_plugins example_heap ''dock'' (example_world lazy_ok))) =
     [ep_docker, ep_viz, ep_docker] \<and>
   2 \<le> count_list [ep_docker, ep_viz, ep_docker] ep_docker \<and>
   distinct (map snd (lazy_groups (self (example_world lazy_ok)))) \<and>
   count_list [ep_docker, ep_viz, ep_docker] ep_viz \<le> 1"
proof -
  let ?w = "example_world lazy_ok"
  let ?first = "partial_handle (lazy_groups (self ?w)) ''dock''"
  let ?eps = "map snd (lazy_groups (self ?w))"
  note t = load_plugins_loads_partial_then_prefix[of ?w example_heap "''dock''"]
  have nn: "None \<notin> set (sources (self ?w))" by (simp add: world_defs)
  have first: "?first = [ep_docker]" by (simp add: partial_handle_def world_defs)
  have eps: "?eps = [ep_viz, ep_docker]" by (simp add: world_defs)
  have lv: "load ep_viz = Returns (example_group ''viz'' [(''viz'', 1)])"
    by (simp add: ep_viz_def)
  have ld: "load ep_docker = Returns (example_group ''docker'' [(''docker'', 2), (''docker-build'', 3)])"
    by (simp add: ep_docker_def)
  have r0: "\<not> resolvable example_heap (sources (self ?w) @ map returned [ep_docker]) ''dock''"
    by code_simp
  have r1: "\<not> resolvable example_heap (sources (self ?w) @ map returned [ep_docker, ep_viz]) ''dock''"
    by code_simp
  have d: "distinct ?eps" by (simp add: world_defs)
  have k: "(2::nat) \<le> length (lazy_groups (self ?w))" by (simp add: world_defs)
  have before: "\<forall>i < 2. \<not> resolvable example_heap
      (sources (self ?w) @ map returned (?first @ take i ?eps)) ''dock''"
  proof (intro allI impI)
    fix i :: nat assume "i < 2"
    then have "i = 0 \<or> i = 1" by auto
    then show "\<not> resolvable example_heap
        (sources (self ?w) @ map returned (?first @ take i ?eps)) ''dock''"
      using r0 r1 unfolding first eps by auto
  qed
  have cond: "(\<forall>ep \<in> set (?first @ take 2 ?eps). \<exists>g. load ep = Returns g) \<and>
         (\<forall>i < 2. \<not> resolvable example_heap
              (sources (self ?w) @ map returned (?first @ take i ?eps)) ''dock'') \<and>
         (2 = length (lazy_groups (self ?w)) \<or>
            resolvable example_heap
              (sources (self ?w) @ map returned (?first @ take 2 ?eps)) ''dock'')"
    using before lv ld unfolding first eps by (simp add: world_defs)
  from t nn k cond
  have a: "loads (snd (load_plugins example_heap ''dock'' ?w)) = loads ?w @ ?first @ take 2 ?eps"
    and b: "\<forall>ep. ep \<in> set ?first \<and> ep \<in> set (take 2 ?eps) \<longrightarrow>
               2 \<le> count_list (?first @ take 2 ?eps) ep"
    by blast+
  have l: "loads (snd (load_plugins example_heap ''dock'' ?w)) = [ep_docker, ep_viz, ep_docker]"
    using a unfolding first eps by (simp add: example_world_def)
  have c2: "2 \<le> count_list [ep_docker, ep_viz, ep_docker] ep_docker"
    using b unfolding first eps by simp
  from t d have "count_list (?first @ take 2 ?eps) ep_viz \<le> 2 \<and>
      (ep_viz \<notin> set ?first \<longrightarrow> count_list (?first @ take 2 ?eps) ep_viz \<le> 1)"
    by blast
  moreover have "ep_viz \<noteq> ep_docker" by (simp add: ep_viz_def ep_docker_def)
  ultimately have c1: "count_list [ep_docker, ep_viz, ep_docker] ep_viz \<le> 1"
    unfolding first eps by simp
  show ?thesis using nn first lv ld r0 r1 l c2 d c1 by blast
qed

text \<open>
  The claim as it is written fails for the typed name \<open>dock\<close>: \<open>kedro-docker\<close> is loaded by
  the first phase and a second time by the loop over all entry points.
\<close>

theorem load_plugins_loads_twice_counterexample:
  "count_list (loads (snd (load_plugins example_heap ''dock'' (example_world lazy_ok)))) ep_docker = 2"
proof -
  have "loads (snd (load_plugins example_heap ''dock'' (example_world lazy_ok))) =
     [ep_docker, ep_viz, ep_docker]"
    by code_simp
  moreover have "ep_viz \<noteq> ep_docker" by (simp add: ep_viz_def ep_docker_def)
  ultimately show ?thesis by simp
qed

text \<open>
  C6: a load that raises an \<open>Exception\<close> is caught by \<open>_safe_load_entry_point\<close>, which logs
  the warning and returns \<open>None\<close>.  \<open>_load_plugins\<close> adds that \<open>None\<close> to the sources, and the
  next listing of the commands raises \<open>AttributeError\<close>: with the plugin \<open>kedro-viz\<close> failing
  to load, the command \<open>docker-build\<close> of the plugin \<open>kedro-docker\<close> listed after it is never
  reached, and \<open>main\<close> ends with the exception before anything is dispatched.
\<close>

theorem main_failed_load_raises:
  "safe_load_entry_point ep_viz_broken (example_world lazy_broken) =
     (Ok None,
      (example_world lazy_broken)
        \<lparr>log := [Warning ''Failed to load %s commands from %s. Full exception: %s''
                  ''kedro_viz.launchers.cli'' ep_viz_broken ''No module named kedro_viz''],
         loads := [ep_viz_broken]\<rparr>) \<and>
   main example_heap super_main (Some [''docker-build'']) (example_world lazy_broken) =
     (Raise AttributeError,
      \<lparr>self = \<lparr>name = None, help_text = Some [], callback = None, params = [],
                sources = [Some (Collection example_B), None], lazy_groups = lazy_broken\<rparr>,
       log = [Warning ''Failed to load %s commands from %s. Full exception: %s''
                ''kedro_viz.launchers.cli'' ep_viz_broken ''No module named kedro_viz''],
       loads = [ep_viz_broken]\<rparr>)"
  by (simp add: main_def load_plugins_def load_partial_def list_commands_def
        safe_load_entry_point_def add_source_def truthy_def world_defs
        collection_list_commands_def group_list_commands_def example_defs)

text \<open>
  C10: \<open>main\<close> tests only \<open>args is not None\<close> before it reads \<open>args[0]\<close>.  With an empty
  argument sequence it raises \<open>IndexError\<close>: no plugin is loaded, nothing is logged and
  \<open>super().main\<close> is not reached.  With \<open>args = None\<close> it goes to \<open>super().main\<close> at once.
\<close>

theorem main_empty_args_raises:
  "main h super_main (Some []) w = (Raise IndexError, w) \<and>
   main h super_main None w = super_main w None"
  by (simp add: main_def)




text \<open>
  C8: a key that is not one of the parameter names of \<open>run\<close> other than \<open>config\<close> makes
  \<open>_validate_config_file\<close> raise a \<open>KedroCliError\<close> whose message names the key and ends with
  what the suggester says about the key and those names; \<open>_config_file_callback\<close> raises that
  error for the first such key of the section and installs nothing.  When every key is a
  parameter name, the callback returns and every key of the section is in \<open>default_map\<close>,
  where a value of the command line (and of the environment) comes before it.
\<close>

theorem config_file_callback_validates:
  assumes "''config'' \<in> set run_params" and "path \<noteq> []"
    and "load_file path = Inr container" and "info_name ctx = Some section"
    and "map_of container section = Some config"
  shows "(\<forall>key. key \<notin> set (remove1 ''config'' run_params) \<longrightarrow>
            (\<exists>message. suggest_cli_command key (remove1 ''config'' run_params) = Inr message \<and>
               validate_config_file run_params key =
                 Inl (KedroCliError
                   (''Key `'' @ key @ ''` in provided configuration is not valid. '' @ message)))) \<and>
         (\<forall>key. find (\<lambda>key. key \<notin> set (remove1 ''config'' run_params)) (map fst config) = Some key \<longrightarrow>
            (\<exists>message. suggest_cli_command key (remove1 ''config'' run_params) = Inr message \<and>
               config_file_callback load_file run_params ctx (Some path) =
                 (Raise (KedroCliError
                    (''Key `'' @ key @ ''` in provided configuration is not valid. '' @ message)),
                  ctx\<lparr>default_map :=
                    Some (case default_map ctx of None \<Rightarrow> Map.empty | Some m \<Rightarrow> m)\<rparr>))) \<and>
         ((\<forall>key \<in> set (map fst config). key \<in> set (remove1 ''config'' run_params)) \<longrightarrow>
            (\<exists>r. fst (config_file_callback load_file run_params ctx (Some path)) = Ok r) \<and>
            (\<forall>key v. map_of config key = Some v \<longrightarrow>
               lookup_default (snd (config_file_callback load_file run_params ctx (Some path))) key = Some v \<and>
               (\<forall>opts envvars dflt. 
                  consume_value opts envvars
                    (snd (config_file_callback load_file run_params ctx (Some path))) dflt key =
                  (case opts key of
                     Some c \<Rightarrow> Some c
                   | None \<Rightarrow> (case envvars key of Some e \<Rightarrow> Some e | None \<Rightarrow> Some v)))))"
proof (intro conjI allI impI)
  fix key assume "key \<notin> set (remove1 ''config'' run_params)"
  then show "\<exists>message. suggest_cli_command key (remove1 ''config'' run_params) = Inr message \<and>
               validate_config_file run_params key =
                 Inl (KedroCliError
                   (''Key `'' @ key @ ''` in provided configuration is not valid. '' @ message))"
    by (rule validate_config_file_bad[OF assms(1)])
next
  fix key
  assume f: "find (\<lambda>key. key \<notin> set (remove1 ''config'' run_params)) (map fst config) = Some key"
  then have bad: "key \<notin> set (remove1 ''config'' run_params)" by (rule find_holds)
  obtain message where m: "suggest_cli_command key (remove1 ''config'' run_params) = Inr message"
      "validate_config_file run_params key =
         Inl (KedroCliError (''Key `'' @ key @ ''` in provided configuration is not valid. '' @ message))"
    using validate_config_file_bad[OF assms(1) bad] by blast
  have "validate_items run_params config (Path (Some path)) =
      Inl (KedroCliError (''Key `'' @ key @ ''` in provided configuration is not valid. '' @ message))"
    by (rule validate_items_bad[OF assms(1) f m(2)])
  then have "config_file_callback load_file run_params ctx (Some path) =
                 (Raise (KedroCliError
                    (''Key `'' @ key @ ''` in provided configuration is not valid. '' @ message)),
                  ctx\<lparr>default_map :=
                    Some (case default_map ctx of None \<Rightarrow> Map.empty | Some m \<Rightarrow> m)\<rparr>)"
    using assms by (simp add: config_file_callback_def truthy_def Let_def)
  then show "\<exists>message. suggest_cli_command key (remove1 ''config'' run_params) = Inr message \<and>
               config_file_callback load_file run_params ctx (Some path) =
                 (Raise (KedroCliError
                    (''Key `'' @ key @ ''` in provided configuration is not valid. '' @ message)),
                  ctx\<lparr>default_map :=
                    Some (case default_map ctx of None \<Rightarrow> Map.empty | Some m \<Rightarrow> m)\<rparr>)"
    using m(1) by blast
next
  assume ok: "\<forall>key \<in> set (map fst config). key \<in> set (remove1 ''config'' run_params)"
  then obtain r where r: "validate_items run_params config (Path (Some path)) = Inr r"
    using validate_items_good[OF assms(1)] by blast
  then show "\<exists>r. fst (config_file_callback load_file run_params ctx (Some path)) = Ok r"
    using assms by (simp add: config_file_callback_def truthy_def Let_def)
next
  fix key v
  assume ok: "\<forall>key \<in> set (map fst config). key \<in> set (remove1 ''config'' run_params)"
    and kv: "map_of config key = Some v"
  then obtain r where r: "validate_items run_params config (Path (Some path)) = Inr r"
    using validate_items_good[OF assms(1)] by blast
  then show "lookup_default (snd (config_file_callback load_file run_params ctx (Some path))) key = Some v"
    using assms kv by (simp add: config_file_callback_def truthy_def Let_def lookup_default_def)
next
  fix key v opts envvars dflt
  assume ok: "\<forall>key \<in> set (map fst config). key \<in> set (remove1 ''config'' run_params)"
    and kv: "map_of config key = Some v"
  then obtain r where r: "validate_items run_params config (Path (Some path)) = Inr r"
    using validate_items_good[OF assms(1)] by blast
  then have "lookup_default (snd (config_file_callback load_file run_params ctx (Some path))) key = Some v"
    using assms kv by (simp add: config_file_callback_def truthy_def Let_def lookup_default_def)
  then show "consume_value opts envvars
                    (snd (config_file_callback load_file run_params ctx (Some path))) dflt key =
                  (case opts key of
                     Some c \<Rightarrow> Some c
                   | None \<Rightarrow> (case envvars key of Some e \<Rightarrow> Some e | None \<Rightarrow> Some v))"
    by (simp add: consume_value_def split: option.splits)
qed

theorem config_file_callback_validates_witness:
  "''config'' \<in> set example_run_params \<and>
   example_load_file [(''env'', ''prod''), (''bogus_key'', ''1'')] ''conf.yml'' =
     Inr [(''run'', [(''env'', ''prod''), (''bogus_key'', ''1'')])] \<and>
   info_name example_context = Some ''run'' \<and>
   fst (config_file_callback (example_load_file [(''env'', ''prod''), (''bogus_key'', ''1'')])
          example_run_params example_context (Some ''conf.yml'')) =
     Raise (KedroCliError ''Key `bogus_key` in provided configuration is not valid. '') \<and>
   consume_value Map.empty Map.empty
     (snd (config_file_callback (example_load_file [(''env'', ''prod'')])
             example_run_params example_context (Some ''conf.yml''))) None ''env'' = Some ''prod'' \<and>
   consume_value [''env'' \<mapsto> ''test''] Map.empty
     (snd (config_file_callback (example_load_file [(''env'', ''prod'')])
             example_run_params example_context (Some ''conf.yml''))) None ''env'' = Some ''test''"
proof -
  let ?bad = "[(''env'', ''prod''), (''bogus_key'', ''1'')]"
  let ?good = "[(''env'', ''prod'')]"
  have c: "''config'' \<in> set example_run_params" by (simp add: example_run_params_def)
  have p: "''conf.yml'' \<noteq> []" by simp
  have i: "info_name example_context = Some ''run''" by (simp add: example_context_def)
  have lb: "example_load_file ?bad ''conf.yml'' = Inr [(''run'', ?bad)]"
    by (simp add: example_load_file_def)
  have lg: "example_load_file ?good ''conf.yml'' = Inr [(''run'', ?good)]"
    by (simp add: example_load_file_def)
  have mb: "map_of [(''run'', ?bad)] ''run'' = Some ?bad" by simp
  have mg: "map_of [(''run'', ?good)] ''run'' = Some ?good" by simp
  note tb = config_file_callback_validates[where load_file = "example_load_file ?bad"
      and path = "''conf.yml''", OF c p lb i mb]
  note tg = config_file_callback_validates[where load_file = "example_load_file ?good"
      and path = "''conf.yml''", OF c p lg i mg]
  have f: "find (\<lambda>key. key \<notin> set (remove1 ''config'' example_run_params)) (map fst ?bad) = Some ''bogus_key''"
    by (simp add: example_run_params_def)
  have s: "suggest_cli_command ''bogus_key'' (remove1 ''config'' example_run_params) = Inr []"
    by code_simp
  from tb f obtain message where m:
      "suggest_cli_command ''bogus_key'' (remove1 ''config'' example_run_params) = Inr message"
      "config_file_callback (example_load_file ?bad) example_run_params example_context (Some ''conf.yml'') =
         (Raise (KedroCliError
            (''Key `'' @ ''bogus_key'' @ ''` in provided configuration is not valid. '' @ message)),
          example_context\<lparr>default_map :=
             Some (case default_map example_context of None \<Rightarrow> Map.empty | Some m \<Rightarrow> m)\<rparr>)"
    by blast
  from m(1) s have "message = []" by simp
  then have bad: "fst (config_file_callback (example_load_file ?bad)
          example_run_params example_context (Some ''conf.yml'')) =
     Raise (KedroCliError ''Key `bogus_key` in provided configuration is not valid. '')"
    using m(2) by simp
  have ok: "\<forall>key \<in> set (map fst ?good). key \<in> set (remove1 ''config'' example_run_params)"
    by (simp add: example_run_params_def)
  have kv: "map_of ?good ''env'' = Some ''prod''" by simp
  from tg ok kv have cv: "\<forall>opts envvars dflt.
      consume_value opts envvars
        (snd (config_file_callback (example_load_file ?good) example_run_params example_context
               (Some ''conf.yml''))) dflt ''env'' =
        (case opts ''env'' of Some c \<Rightarrow> Some c
         | None \<Rightarrow> (case envvars ''env'' of Some e \<Rightarrow> Some e | None \<Rightarrow> Some ''prod''))"
    by blast
  have g1: "consume_value Map.empty Map.empty
     (snd (config_file_callback (example_load_file ?good)
             example_run_params example_context (Some ''conf.yml''))) None ''env'' = Some ''prod''"
    using cv by simp
  have g2: "consume_value [''env'' \<mapsto> ''test''] Map.empty
     (snd (config_file_callback (example_load_file ?good)
             example_run_params example_context (Some ''conf.yml''))) None ''env'' = Some ''test''"
    using cv by simp
  show ?thesis using c lb i bad g1 g2 by simp
qed



end
